theory Spec2Isabelle
  imports Main "HOL-Library.AList" "HOL-Library.Char_ord" "HOL-Library.List_Lexorder"
    "HOL-Library.Product_Lexorder" "HOL-Library.Multiset"
begin

section \<open>Dictionaries\<close>

text \<open>
  A Python \<open>dict\<close> is modelled as an association list in insertion order. The keys of a
  dictionary are pairwise distinct (\<open>distinct (map fst d)\<close>); \<open>d[k] = v\<close> replaces the value
  in place when \<open>k\<close> is present and appends the pair otherwise, \<open>d.get(k)\<close> is
  \<open>map_of d k\<close>, and \<open>d.items()\<close> is the list itself.
\<close>

type_synonym ('k, 'v) dict = "('k \<times> 'v) list"

definition dict_set :: "('k, 'v) dict \<Rightarrow> 'k \<Rightarrow> 'v \<Rightarrow> ('k, 'v) dict" where
  "dict_set d k v = AList.update k v d"

definition dict_keys :: "('k, 'v) dict \<Rightarrow> 'k set" where
  "dict_keys d = fst ` set d"

section \<open>ConfigReconciler: \<open>_merge_port_configs\<close>\<close>

text \<open>
  \<^verbatim>\<open>
  merged_config = {}
  for port_name, port_cfg in current_port_config.items():
      merged_config[port_name] = port_cfg
  for port_name, port_cfg in new_evpn_ports.items():
      merged_config[port_name] = port_cfg
  return merged_config
  \<close>
  The port configuration values are opaque (type \<open>'v\<close>); the third argument
  \<open>esi_lag_name\<close> is not used by the body.
\<close>

definition merge_port_configs ::
  "(string, 'v) dict \<Rightarrow> (string, 'v) dict \<Rightarrow> string \<Rightarrow> (string, 'v) dict" where
  "merge_port_configs current_port_config new_evpn_ports esi_lag_name =
     fold (\<lambda>(port_name, port_cfg) merged_config. dict_set merged_config port_name port_cfg)
       new_evpn_ports
       (fold (\<lambda>(port_name, port_cfg) merged_config. dict_set merged_config port_name port_cfg)
          current_port_config [])"

section \<open>PortConfigBuilder: \<open>get_base_port\<close>\<close>

text \<open>
  Characters are Python code points below 256. In that range the regular-expression class
  \<^verbatim>\<open>\d\<close> is exactly the ten ASCII digits.
\<close>

definition is_digit :: "char \<Rightarrow> bool" where
  "is_digit c \<longleftrightarrow> c \<in> set ''0123456789''"

text \<open>
  \<^verbatim>\<open>$\<close> without the MULTILINE flag matches at the end of the string and just before a
  line feed that ends the string.
\<close>

definition at_end :: "string \<Rightarrow> bool" where
  "at_end rest \<longleftrightarrow> rest = [] \<or> rest = [CHR 0x0A]"

text \<open>
  \<^verbatim>\<open>(?::\d+)?$\<close> at the remaining input: first the group (a colon, then the digit run,
  longest first, giving digits back one at a time), then the empty alternative.
\<close>

definition channel_suffix :: "string \<Rightarrow> bool" where
  "channel_suffix rest \<longleftrightarrow>
     (case rest of
        [] \<Rightarrow> False
      | c # r \<Rightarrow> c = CHR '':'' \<and>
          list_ex (\<lambda>m. at_end (drop m r)) (rev [1 ..< Suc (length (takeWhile is_digit r))]))
     \<or> at_end rest"

text \<open>
  \<^verbatim>\<open>re.match(r'^([^:]+)(?::\d+)?$', port_name)\<close>: group 1 takes the longest run of
  characters other than a colon first and gives characters back one at a time, down to one
  character; the result is group 1 of the first attempt that lets the rest match.
\<close>

definition base_port_match :: "string \<Rightarrow> string option" where
  "base_port_match port_name =
     map_option (\<lambda>n. take n port_name)
       (find (\<lambda>n. channel_suffix (drop n port_name))
          (rev [1 ..< Suc (length (takeWhile (\<lambda>c. c \<noteq> CHR '':'') port_name))]))"

text \<open>
  \<^verbatim>\<open>
  def get_base_port(port_name):
      if not port_name:
          return port_name
      match = re.match(r'^([^:]+)(?::\d+)?$', port_name)
      if match:
          return match.group(1)
      return port_name
  \<close>
\<close>

definition get_base_port :: "string \<Rightarrow> string" where
  "get_base_port port_name =
     (if port_name = [] then port_name
      else case base_port_match port_name of
             Some group1 \<Rightarrow> group1
           | None \<Rightarrow> port_name)"

section \<open>NetworkPlanner: \<open>_parse_static_routes\<close>\<close>

text \<open>
  \<^verbatim>\<open>str.isspace\<close> on the code points below 256; \<^verbatim>\<open>str.strip()\<close> and \<^verbatim>\<open>str.split()\<close> without
  arguments cut at these characters.
\<close>

definition is_space :: "char \<Rightarrow> bool" where
  "is_space c \<longleftrightarrow> c \<in> set [CHR 0x09, CHR 0x0A, CHR 0x0B, CHR 0x0C, CHR 0x0D, CHR 0x1C,
     CHR 0x1D, CHR 0x1E, CHR 0x1F, CHR 0x20, CHR 0x85, CHR 0xA0]"

definition strip :: "string \<Rightarrow> string" where
  "strip s = rev (dropWhile is_space (rev (dropWhile is_space s)))"

text \<open>\<^verbatim>\<open>s.split()\<close>: the maximal runs of characters that are not whitespace, in order.\<close>

fun split_acc :: "string \<Rightarrow> string \<Rightarrow> string list" where
  "split_acc cur [] = (if cur = [] then [] else [cur])"
| "split_acc cur (c # s) =
     (if is_space c then (if cur = [] then split_acc [] s else cur # split_acc [] s)
      else split_acc (cur @ [c]) s)"

definition py_split :: "string \<Rightarrow> string list" where
  "py_split s = split_acc [] s"

text \<open>\<^verbatim>\<open>s.split(sep, 1)\<close>: cut at the first separator only.\<close>

definition split_once :: "char \<Rightarrow> string \<Rightarrow> string list" where
  "split_once sep s =
     (if sep \<in> set s then [takeWhile (\<lambda>c. c \<noteq> sep) s, tl (dropWhile (\<lambda>c. c \<noteq> sep) s)]
      else [s])"

text \<open>The value stored for a route, \<^verbatim>\<open>{"via": nexthop}\<close>.\<close>

record static_route =
  via :: string

text \<open>
  How the \<^verbatim>\<open>try\<close> block ended, with the dictionary \<open>result\<close> as it was then: the loop ran
  to its end, or a statement raised and the \<^verbatim>\<open>except Exception\<close> clause took over.
\<close>

datatype 'a attempt = Completed 'a | Raised 'a

text \<open>
  The loop over \<open>pairs\<close>. \<^verbatim>\<open>ipaddress.ip_network(route, strict=False)\<close> belongs to Python's
  standard library; it is the parameter \<open>ip_network\<close>, true where the call returns and false
  where it raises \<^verbatim>\<open>ValueError\<close>.
  \<^verbatim>\<open>
  for pair in pairs:
      pair = pair.strip()
      if not pair or '@' not in pair:
          continue
      parts = pair.split('@', 1)
      if len(parts) != 2:
          continue
      route = parts[0].strip()
      nexthop = parts[1].strip()
      if not route or not nexthop:
          continue
      ipaddress.ip_network(route, strict=False)
      result[route] = {"via": nexthop}
  \<close>
\<close>

fun parse_pairs ::
  "(string \<Rightarrow> bool) \<Rightarrow> string list \<Rightarrow> (string, static_route) dict
     \<Rightarrow> (string, static_route) dict attempt" where
  "parse_pairs ip_network [] result = Completed result"
| "parse_pairs ip_network (pair0 # pairs) result =
     (let pair = strip pair0 in
      if pair = [] \<or> CHR ''@'' \<notin> set pair then parse_pairs ip_network pairs result
      else
        let parts = split_once (CHR ''@'') pair in
        if length parts \<noteq> 2 then parse_pairs ip_network pairs result
        else
          let route = strip (parts ! 0); nexthop = strip (parts ! 1) in
          if route = [] \<or> nexthop = [] then parse_pairs ip_network pairs result
          else if \<not> ip_network route then Raised result
          else parse_pairs ip_network pairs (dict_set result route \<lparr>via = nexthop\<rparr>))"

text \<open>
  \<^verbatim>\<open>
  result = {}
  if not routes_str:
      return result
  try:
      routes_str = str(routes_str).strip()
      if not routes_str:
          return result
      pairs = routes_str.split()
      for pair in pairs: ...
  except Exception as e:
      print(...)
  return result
  \<close>
  The field is a text cell or absent.
\<close>

definition parse_static_routes ::
  "(string \<Rightarrow> bool) \<Rightarrow> string option \<Rightarrow> (string, static_route) dict" where
  "parse_static_routes ip_network routes_str =
     (case routes_str of
        None \<Rightarrow> []
      | Some s \<Rightarrow>
          if s = [] then []
          else
            let s' = strip s in
            if s' = [] then []
            else (case parse_pairs ip_network (py_split s') [] of
                    Completed result \<Rightarrow> result
                  | Raised result \<Rightarrow> result))"

text \<open>
  A stand-in for \<^verbatim>\<open>ipaddress.ip_network\<close> on the routes of the examples below: it accepts
  the three networks listed, as the library does, and rejects the word \<open>bogus\<close>, as the
  library does.
\<close>

definition sample_ip_network :: "string \<Rightarrow> bool" where
  "sample_ip_network route \<longleftrightarrow> route \<in> set [''10.0.0.0/24'', ''0.0.0.0/0'', ''192.168.66.0/24'']"

section \<open>Errors\<close>

text \<open>
  The exceptions that end a run. The source raises the first three as \<^verbatim>\<open>Exception\<close> with a
  message; they carry the names of the specification's taxonomy and the values the message
  prints. The others are raised by dictionary lookup and by the \<^verbatim>\<open>ipaddress\<close> library.
\<close>

datatype error =
    TopologyUnderspecifiedError
  | AggregationGroupSizeError int nat
  | PortConflictError string string
  | KeyError string
  | ValueError string
  | AddressValueError int

section \<open>Core order and offsets in \<open>create_fabric\<close>\<close>

text \<open>
  \<^verbatim>\<open>
  core_devices = sorted([d for d, r in roles.items() if r == "collapsed-core"])
  if len(core_devices) < 2:
      raise Exception("Need two collapsed-core devices in INTERFACES")
  ...
  core_offsets = {core_devices[0]: 1, core_devices[1]: 2}
  ...
  offset = core_offsets.get(name, 1)
  \<close>
  Strings are ordered as Python orders them: lexicographically by code point, a proper
  prefix before the longer string.
\<close>

definition sorted_core_devices :: "(string, string) dict \<Rightarrow> string list" where
  "sorted_core_devices roles = sort (map fst (filter (\<lambda>(d, r). r = ''collapsed-core'') roles))"

definition core_offsets :: "(string, string) dict \<Rightarrow> error + (string, int) dict" where
  "core_offsets roles =
     (let core_devices = sorted_core_devices roles in
      if length core_devices < 2 then Inl TopologyUnderspecifiedError
      else Inr (dict_set (dict_set [] (core_devices ! 0) 1) (core_devices ! 1) 2))"

definition offset_of :: "(string, int) dict \<Rightarrow> string \<Rightarrow> int" where
  "offset_of offsets name = (case map_of offsets name of Some k \<Rightarrow> k | None \<Rightarrow> 1)"

section \<open>AddressOffsetAllocator: \<open>make_other_ip_configs\<close>\<close>

text \<open>
  An address of the \<^verbatim>\<open>ipaddress\<close> library is its family and its integer value; an interface
  is an address with a prefix length. \<^verbatim>\<open>ipaddress.ip_interface\<close>, which reads the text of a
  gateway cell, is the parameter \<open>ip_interface\<close> (\<open>None\<close> where it raises \<^verbatim>\<open>ValueError\<close>).
  The fields of a result entry hold the addresses themselves, which the source renders
  with \<^verbatim>\<open>str\<close>, and the prefix length, which it renders as \<^verbatim>\<open>f"/{prefixlen}"\<close>.
\<close>

datatype ip_address = IPv4Address int | IPv6Address int

fun max_prefixlen :: "ip_address \<Rightarrow> nat" where
  "max_prefixlen (IPv4Address a) = 32"
| "max_prefixlen (IPv6Address a) = 128"

fun address_int :: "ip_address \<Rightarrow> int" where
  "address_int (IPv4Address a) = a"
| "address_int (IPv6Address a) = a"

fun with_int :: "ip_address \<Rightarrow> int \<Rightarrow> ip_address" where
  "with_int (IPv4Address a) n = IPv4Address n"
| "with_int (IPv6Address a) n = IPv6Address n"

text \<open>
  \<^verbatim>\<open>address + offset\<close> builds an address of the same class from the sum of the integers;
  the constructor raises \<^verbatim>\<open>AddressValueError\<close> for a negative value and for a value beyond
  the family's all-ones address.
\<close>

definition ip_add :: "ip_address \<Rightarrow> int \<Rightarrow> error + ip_address" where
  "ip_add a offset =
     (let n = address_int a + offset in
      if n < 0 \<or> n > 2 ^ max_prefixlen a - 1 then Inl (AddressValueError n)
      else Inr (with_int a n))"

record ip_interface =
  ip :: ip_address
  prefixlen :: nat

text \<open>\<^verbatim>\<open>interface.network.netmask\<close>: the address whose leading \<open>prefixlen\<close> bits are set.\<close>

definition netmask :: "ip_interface \<Rightarrow> ip_address" where
  "netmask i = with_int (ip i)
     (2 ^ max_prefixlen (ip i) - 2 ^ (max_prefixlen (ip i) - prefixlen i))"

record network_row =
  NETWORKNAME :: "string option"
  GATEWAY :: "string option"
  GATEWAY6 :: "string option"

record other_ip_config =
  type :: "string option"
  ip_field :: "ip_address option"
  netmask_field :: "ip_address option"
  type6 :: "string option"
  ip6 :: "ip_address option"
  netmask6 :: "nat option"

definition empty_entry :: other_ip_config where
  "empty_entry = \<lparr>type = None, ip_field = None, netmask_field = None,
     type6 = None, ip6 = None, netmask6 = None\<rparr>"

text \<open>A cell is truthy when it is present and not the empty text.\<close>

definition truthy :: "string option \<Rightarrow> bool" where
  "truthy cell \<longleftrightarrow> (case cell of None \<Rightarrow> False | Some s \<Rightarrow> s \<noteq> [])"

text \<open>\<^verbatim>\<open>str(net.get("NETWORKNAME") or "").strip()\<close>\<close>

definition network_name :: "network_row \<Rightarrow> string" where
  "network_name net = strip (case NETWORKNAME net of None \<Rightarrow> [] | Some s \<Rightarrow> s)"

text \<open>
  \<^verbatim>\<open>
  if gw4:
      i4 = ipaddress.ip_interface(str(gw4))
      ip4 = i4.ip + offset
      entry.update({"type": "static", "ip": str(ip4), "netmask": str(i4.network.netmask)})
  \<close>
\<close>

definition add_gateway4 ::
  "(string \<Rightarrow> ip_interface option) \<Rightarrow> int \<Rightarrow> string option \<Rightarrow> other_ip_config
     \<Rightarrow> error + other_ip_config" where
  "add_gateway4 parse offset gw4 entry =
     (if truthy gw4 then
        (case parse (the gw4) of
           None \<Rightarrow> Inl (ValueError (the gw4))
         | Some i4 \<Rightarrow>
             (case ip_add (ip i4) offset of
                Inl e \<Rightarrow> Inl e
              | Inr ip4 \<Rightarrow> Inr (entry\<lparr>type := Some ''static'', ip_field := Some ip4,
                                    netmask_field := Some (netmask i4)\<rparr>)))
      else Inr entry)"

text \<open>
  \<^verbatim>\<open>
  if gw6:
      i6 = ipaddress.ip_interface(str(gw6))
      ip6 = i6.ip + offset
      entry.update({"type6": "static", "ip6": str(ip6), "netmask6": f"/{i6.network.prefixlen}"})
  \<close>
\<close>

definition add_gateway6 ::
  "(string \<Rightarrow> ip_interface option) \<Rightarrow> int \<Rightarrow> string option \<Rightarrow> other_ip_config
     \<Rightarrow> error + other_ip_config" where
  "add_gateway6 parse offset gw6 entry =
     (if truthy gw6 then
        (case parse (the gw6) of
           None \<Rightarrow> Inl (ValueError (the gw6))
         | Some i6 \<Rightarrow>
             (case ip_add (ip i6) offset of
                Inl e \<Rightarrow> Inl e
              | Inr a6 \<Rightarrow> Inr (entry\<lparr>type6 := Some ''static'', ip6 := Some a6,
                                   netmask6 := Some (prefixlen i6)\<rparr>)))
      else Inr entry)"

text \<open>
  The entry of one row: \<^verbatim>\<open>entry = {}\<close>, then the two \<^verbatim>\<open>if\<close> blocks in turn.
\<close>

definition make_entry ::
  "(string \<Rightarrow> ip_interface option) \<Rightarrow> int \<Rightarrow> network_row \<Rightarrow> error + other_ip_config" where
  "make_entry parse offset net =
     (case add_gateway4 parse offset (GATEWAY net) empty_entry of
        Inl e \<Rightarrow> Inl e
      | Inr entry4 \<Rightarrow> add_gateway6 parse offset (GATEWAY6 net) entry4)"

text \<open>
  \<^verbatim>\<open>
  cfg = {}
  for net in networks_rows:
      name = str(net.get("NETWORKNAME") or "").strip()
      if not name: continue
      entry = {}
      gw4 = net.get("GATEWAY")
      gw6 = net.get("GATEWAY6")
      if gw4: ...
      if gw6: ...
      if entry:
          cfg[name] = entry
  return cfg
  \<close>
\<close>

fun other_ip_configs_loop ::
  "(string \<Rightarrow> ip_interface option) \<Rightarrow> int \<Rightarrow> network_row list
     \<Rightarrow> (string, other_ip_config) dict \<Rightarrow> error + (string, other_ip_config) dict" where
  "other_ip_configs_loop parse offset [] cfg = Inr cfg"
| "other_ip_configs_loop parse offset (net # rows) cfg =
     (let name = network_name net in
      if name = [] then other_ip_configs_loop parse offset rows cfg
      else
        (case make_entry parse offset net of
           Inl e \<Rightarrow> Inl e
         | Inr entry \<Rightarrow>
             if entry \<noteq> empty_entry
             then other_ip_configs_loop parse offset rows (dict_set cfg name entry)
             else other_ip_configs_loop parse offset rows cfg))"

definition make_other_ip_configs ::
  "(string \<Rightarrow> ip_interface option) \<Rightarrow> network_row list \<Rightarrow> int
     \<Rightarrow> error + (string, other_ip_config) dict" where
  "make_other_ip_configs parse networks_rows offset =
     other_ip_configs_loop parse offset networks_rows []"

text \<open>
  A stand-in for \<^verbatim>\<open>ipaddress.ip_interface\<close> on the gateways of the examples below, with the
  values the library gives: \<open>10.0.0.1/24\<close> is the IPv4 address 167772161 with prefix length
  24, \<open>2001:db8::1/64\<close> is the IPv6 address \<open>0x20010db8 * 2 ^ 96 + 1\<close> with prefix length 64.
\<close>

definition sample_ip_interface :: "string \<Rightarrow> ip_interface option" where
  "sample_ip_interface s =
     (if s = ''10.0.0.1/24'' then Some \<lparr>ip = IPv4Address 167772161, prefixlen = 24\<rparr>
      else if s = ''2001:db8::1/64''
        then Some \<lparr>ip = IPv6Address (0x20010db8 * 2 ^ 96 + 1), prefixlen = 64\<rparr>
      else None)"

section \<open>TopologySynthesizer: \<open>_build_topology\<close>\<close>

text \<open>
  One row of the INTERFACES sheet, with the fields \<open>_build_topology\<close> reads. Devices and
  ports are text, as the data model requires them; \<open>ae_idx\<close> is absent or an integer.
\<close>

record interface_link =
  src_device :: string
  src_int :: string
  dst_device :: string
  dst_int :: string
  ae_idx :: "int option"

text \<open>An element of \<open>core_links\<close>.\<close>

record core_link =
  core1 :: string
  port1 :: string
  core2 :: string
  port2 :: string

text \<open>
  A port configuration: the dictionaries the source builds have the key \<open>usage\<close> and
  some of \<open>aggregated\<close>, \<open>esilag\<close>, \<open>ae_idx\<close> and \<open>link_name\<close>; a key that is not in the
  dictionary is \<open>None\<close> here.
\<close>

record port_cfg =
  usage :: string
  aggregated :: "bool option"
  esilag :: "bool option"
  port_ae_idx :: "int option"
  link_name :: "string option"

type_synonym port_config = "(string, (string, port_cfg) dict) dict"

type_synonym access_config = "(string option, (string, port_cfg) dict) dict"

definition is_core :: "(string, string) dict \<Rightarrow> string \<Rightarrow> bool" where
  "is_core device_roles d \<longleftrightarrow> map_of device_roles d = Some ''collapsed-core''"

text \<open>
  \<^verbatim>\<open>
  core_links = []
  seen = set()
  for e in entries:
      if e["src_device"] in core_devices and e["dst_device"] in core_devices:
          a = (e["src_device"], e["src_int"])
          b = (e["dst_device"], e["dst_int"])
          key = frozenset({a, b})
          if key in seen: continue
          seen.add(key)
          core_links.append({"core1": e["src_device"], "port1": e["src_int"],
                             "core2": e["dst_device"], "port2": e["dst_int"]})
  \<close>
\<close>

fun core_links_loop ::
  "string list \<Rightarrow> interface_link list \<Rightarrow> (string \<times> string) set set \<Rightarrow> core_link list
     \<Rightarrow> core_link list" where
  "core_links_loop core_devices [] seen core_links = core_links"
| "core_links_loop core_devices (e # entries) seen core_links =
     (if src_device e \<in> set core_devices \<and> dst_device e \<in> set core_devices then
        (let a = (src_device e, src_int e);
             b = (dst_device e, dst_int e);
             key = {a, b}
         in if key \<in> seen then core_links_loop core_devices entries seen core_links
            else core_links_loop core_devices entries (insert key seen)
                   (core_links @ [\<lparr>core1 = src_device e, port1 = src_int e,
                                    core2 = dst_device e, port2 = dst_int e\<rparr>]))
      else core_links_loop core_devices entries seen core_links)"

text \<open>
  \<^verbatim>\<open>
  ae_groups = {}
  for e in entries:
      if e["ae_idx"] is None: continue
      s_is_core = device_roles.get(e["src_device"]) == "collapsed-core"
      d_is_core = device_roles.get(e["dst_device"]) == "collapsed-core"
      if s_is_core ^ d_is_core:
          ae_groups.setdefault(e["ae_idx"], []).append(e)
  \<close>
\<close>

fun ae_groups_loop ::
  "(string, string) dict \<Rightarrow> interface_link list \<Rightarrow> (int, interface_link list) dict
     \<Rightarrow> (int, interface_link list) dict" where
  "ae_groups_loop device_roles [] ae_groups = ae_groups"
| "ae_groups_loop device_roles (e # entries) ae_groups =
     (case ae_idx e of
        None \<Rightarrow> ae_groups_loop device_roles entries ae_groups
      | Some ae \<Rightarrow>
          (let s_is_core = is_core device_roles (src_device e);
               d_is_core = is_core device_roles (dst_device e)
           in if s_is_core \<noteq> d_is_core then
                ae_groups_loop device_roles entries
                  (dict_set ae_groups ae
                     ((case map_of ae_groups ae of None \<Rightarrow> [] | Some conns \<Rightarrow> conns) @ [e]))
              else ae_groups_loop device_roles entries ae_groups))"

definition esi_lag_core :: "int \<Rightarrow> port_cfg" where
  "esi_lag_core ae = \<lparr>usage = ''EVPN-ESI-LAG'', aggregated = Some True, esilag = Some True,
     port_ae_idx = Some ae, link_name = None\<rparr>"

definition esi_lag_access :: "int \<Rightarrow> port_cfg" where
  "esi_lag_access ae = \<lparr>usage = ''EVPN-ESI-LAG'', aggregated = Some True, esilag = None,
     port_ae_idx = Some ae, link_name = None\<rparr>"

text \<open>
  The loop over the legs of one group; \<open>access_dev\<close> starts as \<^verbatim>\<open>None\<close>.
  \<^verbatim>\<open>
  for c in conns:
      if device_roles.get(c["src_device"]) == "collapsed-core":
          core_dev, core_port = c["src_device"], c["src_int"]
          access_dev, access_port = c["dst_device"], c["dst_int"]
      else:
          core_dev, core_port = c["dst_device"], c["dst_int"]
          access_dev, access_port = c["src_device"], c["src_int"]
      if core_port in core_port_config[core_dev]:
          raise Exception(f"Core '{core_dev}' port '{core_port}' used in multiple AE groups")
      core_port_config[core_dev][core_port] = {"usage": "EVPN-ESI-LAG", "aggregated": True,
                                               "esilag": True, "ae_idx": ae}
      access_ports.append(access_port)
  \<close>
\<close>

definition core_end :: "(string, string) dict \<Rightarrow> interface_link \<Rightarrow> string \<times> string" where
  "core_end device_roles c =
     (if is_core device_roles (src_device c) then (src_device c, src_int c)
      else (dst_device c, dst_int c))"

definition access_end :: "(string, string) dict \<Rightarrow> interface_link \<Rightarrow> string \<times> string" where
  "access_end device_roles c =
     (if is_core device_roles (src_device c) then (dst_device c, dst_int c)
      else (src_device c, src_int c))"

fun conns_loop ::
  "(string, string) dict \<Rightarrow> int \<Rightarrow> interface_link list \<Rightarrow> port_config \<Rightarrow> string option
     \<Rightarrow> string list \<Rightarrow> error + (port_config \<times> string option \<times> string list)" where
  "conns_loop device_roles ae [] core_port_config access_dev access_ports =
     Inr (core_port_config, access_dev, access_ports)"
| "conns_loop device_roles ae (c # conns) core_port_config access_dev0 access_ports =
     (let (core_dev, core_port) = core_end device_roles c;
          (access_dev, access_port) = access_end device_roles c
      in case map_of core_port_config core_dev of
           None \<Rightarrow> Inl (KeyError core_dev)
         | Some ports \<Rightarrow>
             if map_of ports core_port \<noteq> None then Inl (PortConflictError core_dev core_port)
             else conns_loop device_roles ae conns
                    (dict_set core_port_config core_dev (dict_set ports core_port (esi_lag_core ae)))
                    (Some access_dev) (access_ports @ [access_port]))"

text \<open>\<^verbatim>\<open>sep.join(parts)\<close>\<close>

fun join :: "string \<Rightarrow> string list \<Rightarrow> string" where
  "join sep [] = []"
| "join sep [x] = x"
| "join sep (x # y # ys) = x @ sep @ join sep (y # ys)"

text \<open>\<^verbatim>\<open>",".join(sorted({p for p in access_ports if p}))\<close>\<close>

definition port_key :: "string list \<Rightarrow> string" where
  "port_key access_ports = join '','' (sort (remdups (filter (\<lambda>p. p \<noteq> []) access_ports)))"

text \<open>
  \<^verbatim>\<open>
  for ae, conns in ae_groups.items():
      if len(conns) != 2:
          raise Exception(f"AE_IDX={ae} must have exactly 2 connections (found {len(conns)})")
      access_dev = None
      access_ports = []
      for c in conns: ...
      port_key = ",".join(sorted({p for p in access_ports if p}))
      access_port_config[access_dev] = {port_key: {"usage": "EVPN-ESI-LAG", "aggregated": True,
                                                   "ae_idx": ae}}
  \<close>
\<close>

fun groups_loop ::
  "(string, string) dict \<Rightarrow> (int \<times> interface_link list) list \<Rightarrow> port_config \<Rightarrow> access_config
     \<Rightarrow> error + (port_config \<times> access_config)" where
  "groups_loop device_roles [] core_port_config access_port_config =
     Inr (core_port_config, access_port_config)"
| "groups_loop device_roles ((ae, conns) # groups) core_port_config access_port_config =
     (if length conns \<noteq> 2 then Inl (AggregationGroupSizeError ae (length conns))
      else case conns_loop device_roles ae conns core_port_config None [] of
             Inl e \<Rightarrow> Inl e
           | Inr (core_port_config', access_dev, access_ports) \<Rightarrow>
               groups_loop device_roles groups core_port_config'
                 (dict_set access_port_config access_dev
                    [(port_key access_ports, esi_lag_access ae)]))"

text \<open>The decimal numeral of \<open>i\<close>, for \<^verbatim>\<open>f"link{i}"\<close>.\<close>

fun str_nat :: "nat \<Rightarrow> string" where
  "str_nat n =
     (if n < 10 then [''0123456789'' ! n]
      else str_nat (n div 10) @ [''0123456789'' ! (n mod 10)])"

definition link_cfg :: "string \<Rightarrow> nat \<Rightarrow> port_cfg" where
  "link_cfg u i = \<lparr>usage = u, aggregated = None, esilag = None, port_ae_idx = None,
     link_name = Some (''link'' @ str_nat i)\<rparr>"

text \<open>\<^verbatim>\<open>core_port_config[dev][port] = cfg\<close>\<close>

definition set_port :: "port_config \<Rightarrow> string \<Rightarrow> string \<Rightarrow> port_cfg \<Rightarrow> error + port_config" where
  "set_port core_port_config dev port cfg =
     (case map_of core_port_config dev of
        None \<Rightarrow> Inl (KeyError dev)
      | Some ports \<Rightarrow> Inr (dict_set core_port_config dev (dict_set ports port cfg)))"

text \<open>
  \<^verbatim>\<open>
  for i, l in enumerate(sorted(core_links, key=...), start=1):
      c1, p1, c2, p2 = l["core1"], l["port1"], l["core2"], l["port2"]
      if i % 2 == 1:
          core_port_config[c1][p1] = {"usage": "evpn_downlink", "link_name": f"link{i}"}
          core_port_config[c2][p2] = {"usage": "evpn_uplink", "link_name": f"link{i}"}
      else:
          core_port_config[c1][p1] = {"usage": "evpn_uplink", "link_name": f"link{i}"}
          core_port_config[c2][p2] = {"usage": "evpn_downlink", "link_name": f"link{i}"}
  \<close>
\<close>

fun links_loop :: "nat \<Rightarrow> core_link list \<Rightarrow> port_config \<Rightarrow> error + port_config" where
  "links_loop i [] core_port_config = Inr core_port_config"
| "links_loop i (l # links) core_port_config =
     (let (u1, u2) = (if i mod 2 = 1 then (''evpn_downlink'', ''evpn_uplink'')
                      else (''evpn_uplink'', ''evpn_downlink''))
      in case set_port core_port_config (core1 l) (port1 l) (link_cfg u1 i) of
           Inl e \<Rightarrow> Inl e
         | Inr cfg1 \<Rightarrow>
             (case set_port cfg1 (core2 l) (port2 l) (link_cfg u2 i) of
                Inl e \<Rightarrow> Inl e
              | Inr cfg2 \<Rightarrow> links_loop (Suc i) links cfg2))"

text \<open>The sort key \<^verbatim>\<open>(x["core1"], x["core2"], x["port1"], x["port2"])\<close>, compared as a tuple.\<close>

definition link_key :: "core_link \<Rightarrow> string \<times> string \<times> string \<times> string" where
  "link_key x = (core1 x, core2 x, port1 x, port2 x)"

text \<open>
  The aggregation part: the groups and the loop over them, from
  \<^verbatim>\<open>core_port_config = {c: {} for c in core_devices}\<close> and an empty
  \<open>access_port_config\<close>.
\<close>

definition aggregation_groups ::
  "interface_link list \<Rightarrow> (string, string) dict \<Rightarrow> (int, interface_link list) dict" where
  "aggregation_groups entries device_roles = ae_groups_loop device_roles entries []"

definition initial_port_config :: "string list \<Rightarrow> port_config" where
  "initial_port_config core_devices = fold (\<lambda>c d. dict_set d c []) core_devices []"

definition aggregation_phase ::
  "interface_link list \<Rightarrow> (string, string) dict \<Rightarrow> error + (port_config \<times> access_config)" where
  "aggregation_phase entries device_roles =
     groups_loop device_roles (aggregation_groups entries device_roles)
       (initial_port_config (sorted_core_devices device_roles)) []"

text \<open>
  \<^verbatim>\<open>
  core_devices = [d for d, r in device_roles.items() if r == "collapsed-core"]
  if len(core_devices) < 2:
      raise Exception("Need at least two devices with role 'collapsed-core'")
  core_devices.sort()
  ...
  return core_links, core_port_config, access_port_config
  \<close>
\<close>

definition build_topology ::
  "interface_link list \<Rightarrow> (string, string) dict
     \<Rightarrow> error + (core_link list \<times> port_config \<times> access_config)" where
  "build_topology entries device_roles =
     (let core_devices = sorted_core_devices device_roles in
      if length core_devices < 2 then Inl TopologyUnderspecifiedError
      else
        let core_links = core_links_loop core_devices entries {} [] in
        case aggregation_phase entries device_roles of
          Inl e \<Rightarrow> Inl e
        | Inr (core_port_config, access_port_config) \<Rightarrow>
            (case links_loop 1 (sort_key link_key core_links) core_port_config of
               Inl e \<Rightarrow> Inl e
             | Inr core_port_config' \<Rightarrow> Inr (core_links, core_port_config', access_port_config)))"

text \<open>
  The unordered pair of (device, port) endpoints of a link and of a record, and whether a
  record joins two core devices.
\<close>

definition link_ends :: "core_link \<Rightarrow> (string \<times> string) set" where
  "link_ends l = {(core1 l, port1 l), (core2 l, port2 l)}"

definition entry_ends :: "interface_link \<Rightarrow> (string \<times> string) set" where
  "entry_ends e = {(src_device e, src_int e), (dst_device e, dst_int e)}"

definition core_to_core :: "(string, string) dict \<Rightarrow> interface_link \<Rightarrow> bool" where
  "core_to_core device_roles e \<longleftrightarrow>
     is_core device_roles (src_device e) \<and> is_core device_roles (dst_device e)"

text \<open>\<^verbatim>\<open>core_port_config.get(dev, {}).get(port)\<close>: what a port configuration holds for a port.\<close>

definition port_lookup :: "port_config \<Rightarrow> string \<Rightarrow> string \<Rightarrow> port_cfg option" where
  "port_lookup core_port_config dev port =
     (case map_of core_port_config dev of None \<Rightarrow> None | Some ports \<Rightarrow> map_of ports port)"

text \<open>The usages of the two ends of link \<open>i\<close>, as the branches of \<^verbatim>\<open>if i % 2 == 1\<close> give them.\<close>

definition usage1 :: "nat \<Rightarrow> string" where
  "usage1 i = (if i mod 2 = 1 then ''evpn_downlink'' else ''evpn_uplink'')"

definition usage2 :: "nat \<Rightarrow> string" where
  "usage2 i = (if i mod 2 = 1 then ''evpn_uplink'' else ''evpn_downlink'')"

text \<open>
  A qualifying aggregation leg: a record with an aggregation id and exactly one core
  endpoint. \<open>legs\<close> are the qualifying legs with a given id, in the order of the records.
\<close>

definition is_leg :: "(string, string) dict \<Rightarrow> interface_link \<Rightarrow> bool" where
  "is_leg device_roles e \<longleftrightarrow>
     ae_idx e \<noteq> None
     \<and> is_core device_roles (src_device e) \<noteq> is_core device_roles (dst_device e)"

definition legs :: "(string, string) dict \<Rightarrow> interface_link list \<Rightarrow> int \<Rightarrow> interface_link list" where
  "legs device_roles entries ae =
     filter (\<lambda>e. ae_idx e = Some ae \<and> is_leg device_roles e) entries"

text \<open>
  What the loop over the legs of a group leaves in \<open>access_dev\<close> and \<open>port_key\<close>: the
  access side of the last leg, and the key made of the access ports of all legs.
\<close>

definition group_access_dev :: "(string, string) dict \<Rightarrow> interface_link list \<Rightarrow> string" where
  "group_access_dev device_roles conns = fst (access_end device_roles (last conns))"

definition group_port_key :: "(string, string) dict \<Rightarrow> interface_link list \<Rightarrow> string" where
  "group_port_key device_roles conns =
     port_key (map (\<lambda>c. snd (access_end device_roles c)) conns)"

section \<open>Facts about dictionaries\<close>

lemma map_of_dict_set: "map_of (dict_set d k v) = (map_of d)(k \<mapsto> v)"
  by (simp add: dict_set_def update_conv')

lemma dict_keys_dict_set: "dict_keys (dict_set d k v) = insert k (dict_keys d)"
  by (simp add: dict_set_def dict_keys_def dom_update)

lemma distinct_dict_set: "distinct (map fst d) \<Longrightarrow> distinct (map fst (dict_set d k v))"
  by (simp add: dict_set_def distinct_update)

lemma dict_keys_fold_set:
  "dict_keys (fold (\<lambda>(k, v) m. dict_set m k v) xs d) = dict_keys d \<union> dict_keys xs"
proof (induction xs arbitrary: d)
  case Nil
  show ?case by (simp add: dict_keys_def)
next
  case (Cons x xs)
  obtain k v where x: "x = (k, v)" by (cases x)
  have "dict_keys (x # xs) = insert k (dict_keys xs)"
    by (simp add: x dict_keys_def)
  then show ?case
    by (simp add: x Cons.IH dict_keys_dict_set)
qed

lemma distinct_fold_set:
  "distinct (map fst d) \<Longrightarrow> distinct (map fst (fold (\<lambda>(k, v) m. dict_set m k v) xs d))"
proof (induction xs arbitrary: d)
  case Nil
  then show ?case by simp
next
  case (Cons x xs)
  obtain k v where x: "x = (k, v)" by (cases x)
  show ?case
    using Cons.prems by (simp add: x Cons.IH distinct_dict_set)
qed

lemma map_of_fold_set:
  "distinct (map fst xs) \<Longrightarrow>
   map_of (fold (\<lambda>(k, v) m. dict_set m k v) xs d) = map_of d ++ map_of xs"
proof (induction xs arbitrary: d)
  case Nil
  show ?case by simp
next
  case (Cons x xs)
  obtain k v where x: "x = (k, v)" by (cases x)
  from Cons.prems have dx: "distinct (map fst xs)" and kx: "k \<notin> fst ` set xs"
    by (simp_all add: x)
  have nk: "map_of xs k = None"
    using kx by (simp add: map_of_eq_None_iff)
  have "map_of (fold (\<lambda>(k, v) m. dict_set m k v) (x # xs) d)
        = map_of (dict_set d k v) ++ map_of xs"
    using Cons.IH [OF dx, of "dict_set d k v"] by (simp add: x)
  also have "\<dots> = map_of d ++ map_of (x # xs)"
    using nk by (auto simp: x map_of_dict_set map_add_def fun_eq_iff split: option.splits)
  finally show ?case .
qed

section \<open>Facts about the port-name pattern\<close>

lemma find_rev_upt_top:
  assumes "\<And>k. 1 \<le> k \<Longrightarrow> k < n \<Longrightarrow> \<not> P k"
  shows "find P (rev [1 ..< Suc n]) = (if 1 \<le> n \<and> P n then Some n else None)"
proof (cases "1 \<le> n")
  case False
  then show ?thesis by simp
next
  case True
  then have r: "rev [1 ..< Suc n] = n # rev [1 ..< n]" by simp
  have "find P (rev [1 ..< n]) = None"
    using assms by (auto simp: find_None_iff)
  then show ?thesis using True by (simp add: r)
qed

lemma list_ex_rev_upt_top:
  assumes "\<And>k. 1 \<le> k \<Longrightarrow> k < n \<Longrightarrow> \<not> P k"
  shows "list_ex P (rev [1 ..< Suc n]) \<longleftrightarrow> 1 \<le> n \<and> P n"
  using assms by (auto simp: list_ex_iff less_Suc_eq)

lemma not_digit_LF: "\<not> is_digit (CHR 0x0A)"
  by (simp add: is_digit_def)

lemma not_digit_colon: "\<not> is_digit (CHR '':'')"
  by (simp add: is_digit_def)

lemma drop_takeWhile_hd:
  assumes "k < length (takeWhile P xs)"
  shows "\<exists>y ys. drop k xs = y # ys \<and> P y"
proof -
  have kl: "k < length xs"
    using assms length_takeWhile_le [of P xs] by (meson less_le_trans)
  have "P (xs ! k)"
    using assms by (metis nth_mem set_takeWhileD takeWhile_nth)
  moreover have "drop k xs = xs ! k # drop (Suc k) xs"
    using kl by (simp add: Cons_nth_drop_Suc)
  ultimately show ?thesis by blast
qed

lemma digits_then_end:
  "list_ex (\<lambda>m. at_end (drop m r)) (rev [1 ..< Suc (length (takeWhile is_digit r))])
   \<longleftrightarrow> takeWhile is_digit r \<noteq> [] \<and> at_end (dropWhile is_digit r)"
proof -
  have "\<not> at_end (drop k r)" if kd: "k < length (takeWhile is_digit r)" for k
  proof -
    obtain y ys where d: "drop k r = y # ys" and y: "is_digit y"
      using drop_takeWhile_hd [OF kd] by blast
    show ?thesis using y not_digit_LF by (auto simp: at_end_def d)
  qed
  then have "list_ex (\<lambda>m. at_end (drop m r)) (rev [1 ..< Suc (length (takeWhile is_digit r))])
     \<longleftrightarrow> 1 \<le> length (takeWhile is_digit r) \<and> at_end (drop (length (takeWhile is_digit r)) r)"
    by (intro list_ex_rev_upt_top) simp
  then show ?thesis
    by (simp add: dropWhile_eq_drop Suc_le_eq)
qed

lemma channel_suffix_iff:
  "channel_suffix rest \<longleftrightarrow>
     at_end rest \<or> (\<exists>r. rest = CHR '':'' # r \<and> takeWhile is_digit r \<noteq> []
        \<and> at_end (dropWhile is_digit r))"
  unfolding channel_suffix_def
  by (cases rest) (auto simp only: digits_then_end list.case list.inject list.distinct simp_thms)

lemma base_port_match_eq:
  "base_port_match s =
     (if takeWhile (\<lambda>c. c \<noteq> CHR '':'') s \<noteq> [] \<and> channel_suffix (dropWhile (\<lambda>c. c \<noteq> CHR '':'') s)
      then Some (takeWhile (\<lambda>c. c \<noteq> CHR '':'') s) else None)"
proof -
  let ?P = "\<lambda>c. c \<noteq> CHR '':''"
  let ?n = "length (takeWhile ?P s)"
  have small: "\<not> channel_suffix (drop k s)" if k: "1 \<le> k" "k < ?n"
    and top: "\<not> channel_suffix (drop ?n s)" for k
  proof
    assume cs: "channel_suffix (drop k s)"
    obtain y ys where d: "drop k s = y # ys" and y: "y \<noteq> CHR '':''"
      using drop_takeWhile_hd [OF k(2)] by blast
    from cs have "at_end (drop k s)"
      using y by (auto simp: channel_suffix_iff d)
    then have ys: "ys = []" by (auto simp: at_end_def d)
    have "length (drop k s) = 1" by (simp add: d ys)
    then have "length s = Suc k" by simp
    moreover have "?n \<le> length s" by (rule length_takeWhile_le)
    ultimately have "?n = length s" using k(2) by simp
    then have "drop ?n s = []" by simp
    with top show False by (simp add: channel_suffix_iff at_end_def)
  qed
  show ?thesis
  proof (cases "channel_suffix (drop ?n s)")
    case True
    have "find (\<lambda>n. channel_suffix (drop n s)) (rev [1 ..< Suc ?n])
          = (if 1 \<le> ?n then Some ?n else None)"
    proof (cases "1 \<le> ?n")
      case False then show ?thesis by simp
    next
      case T: True
      then have r: "rev [1 ..< Suc ?n] = ?n # rev [1 ..< ?n]" by simp
      show ?thesis using True T by (simp add: r)
    qed
    moreover have "take ?n s = takeWhile ?P s"
      by (rule takeWhile_eq_take [symmetric])
    ultimately show ?thesis
      using True by (cases "takeWhile ?P s") (auto simp: base_port_match_def dropWhile_eq_drop)
  next
    case False
    have "find (\<lambda>n. channel_suffix (drop n s)) (rev [1 ..< Suc ?n])
          = (if 1 \<le> ?n \<and> channel_suffix (drop ?n s) then Some ?n else None)"
      by (rule find_rev_upt_top) (use small False in blast)
    then show ?thesis
      using False by (simp add: base_port_match_def dropWhile_eq_drop)
  qed
qed

lemma get_base_port_eq:
  "get_base_port s =
     (if takeWhile (\<lambda>c. c \<noteq> CHR '':'') s \<noteq> [] \<and> channel_suffix (dropWhile (\<lambda>c. c \<noteq> CHR '':'') s)
      then takeWhile (\<lambda>c. c \<noteq> CHR '':'') s else s)"
  by (cases s) (simp_all add: get_base_port_def base_port_match_eq)

lemma get_base_port_strips:
  assumes "base \<noteq> []" and "CHR '':'' \<notin> set base" and "digits \<noteq> []"
    and "list_all is_digit digits"
  shows "get_base_port (base @ CHR '':'' # digits) = base"
proof -
  let ?P = "\<lambda>c. c \<noteq> CHR '':''"
  have tw: "takeWhile ?P (base @ CHR '':'' # digits) = base"
    using assms(2) by (subst takeWhile_append2) auto
  have dw: "dropWhile ?P (base @ CHR '':'' # digits) = CHR '':'' # digits"
    using assms(2) by (subst dropWhile_append2) auto
  have td: "takeWhile is_digit digits = digits" and dd: "dropWhile is_digit digits = []"
    using assms(4) by (simp_all add: list_all_iff)
  have "takeWhile is_digit digits \<noteq> [] \<and> at_end (dropWhile is_digit digits)"
    using assms(3) by (simp only: td dd at_end_def) simp
  then have "channel_suffix (CHR '':'' # digits)"
    unfolding channel_suffix_iff by blast
  then show ?thesis
    using assms(1) by (simp add: get_base_port_eq tw dw)
qed

lemma get_base_port_keeps:
  assumes "\<not> (\<exists>base digits. port_name = base @ CHR '':'' # digits \<and> base \<noteq> []
      \<and> CHR '':'' \<notin> set base \<and> digits \<noteq> [] \<and> list_all is_digit digits)"
    and "port_name = [] \<or> last port_name \<noteq> CHR 0x0A"
  shows "get_base_port port_name = port_name"
proof (rule ccontr)
  assume ne: "get_base_port port_name \<noteq> port_name"
  define b where "b = takeWhile (\<lambda>c. c \<noteq> CHR '':'') port_name"
  define rest where "rest = dropWhile (\<lambda>c. c \<noteq> CHR '':'') port_name"
  have split: "port_name = b @ rest"
    by (simp add: b_def rest_def)
  have nb: "CHR '':'' \<notin> set b"
    by (auto simp: b_def dest: set_takeWhileD)
  from ne have b: "b \<noteq> []" and cs: "channel_suffix rest" and neq: "b \<noteq> port_name"
    unfolding get_base_port_eq b_def rest_def by (simp_all split: if_splits)
  have rne: "rest \<noteq> []"
    using neq by (auto simp: split)
  have hd: "hd rest = CHR '':''"
    using rne hd_dropWhile [of "\<lambda>c. c \<noteq> CHR '':''" port_name] by (simp add: rest_def)
  have "\<not> at_end rest"
    using rne hd by (auto simp: at_end_def)
  with cs obtain r where r: "rest = CHR '':'' # r" and t: "takeWhile is_digit r \<noteq> []"
    and e: "at_end (dropWhile is_digit r)"
    unfolding channel_suffix_iff by blast
  have rn: "r \<noteq> []" using t by auto
  have lastp: "last port_name = last r"
    using rn by (simp add: split r)
  have "dropWhile is_digit r = []"
  proof (rule ccontr)
    assume "dropWhile is_digit r \<noteq> []"
    with e have lf: "dropWhile is_digit r = [CHR 0x0A]" unfolding at_end_def by blast
    have "takeWhile is_digit r @ dropWhile is_digit r = r"
      by (rule takeWhile_dropWhile_id)
    then have "takeWhile is_digit r @ [CHR 0x0A] = r"
      by (simp only: lf)
    then have "last r = CHR 0x0A"
      using last_snoc [of "takeWhile is_digit r" "CHR 0x0A"] by (simp only:)
    with lastp assms(2) show False by (simp add: split r)
  qed
  then have all: "list_all is_digit r"
    by (simp add: list_all_iff dropWhile_eq_Nil_conv)
  have "port_name = b @ CHR '':'' # r"
    by (simp only: split r)
  with b nb rn all have "\<exists>base digits. port_name = base @ CHR '':'' # digits \<and> base \<noteq> []
      \<and> CHR '':'' \<notin> set base \<and> digits \<noteq> [] \<and> list_all is_digit digits"
    by (intro exI [of _ b] exI [of _ r]) simp
  with assms(1) show False ..
qed


section \<open>Facts about the route tokens\<close>

lemma split_once_first:
  assumes "sep \<notin> set a"
  shows "split_once sep (a @ sep # b) = [a, b]"
proof -
  have "takeWhile (\<lambda>c. c \<noteq> sep) (a @ sep # b) = a"
    using assms by (subst takeWhile_append2) auto
  moreover have "dropWhile (\<lambda>c. c \<noteq> sep) (a @ sep # b) = sep # b"
    using assms by (subst dropWhile_append2) auto
  ultimately show ?thesis by (simp add: split_once_def)
qed

lemma parse_pairs_no_at:
  assumes "strip t = [] \<or> CHR ''@'' \<notin> set (strip t)"
  shows "parse_pairs v (t # ts) r = parse_pairs v ts r"
  using assms by (auto simp: Let_def)

lemma parse_pairs_at:
  assumes "strip t = a @ CHR ''@'' # b" and "CHR ''@'' \<notin> set a"
  shows "parse_pairs v (t # ts) r =
     (if strip a = [] \<or> strip b = [] then parse_pairs v ts r
      else if \<not> v (strip a) then Raised r
      else parse_pairs v ts (dict_set r (strip a) \<lparr>via = strip b\<rparr>))"
proof -
  have "split_once (CHR ''@'') (strip t) = [a, b]"
    unfolding assms(1) using assms(2) by (rule split_once_first)
  then show ?thesis
    by (simp add: Let_def assms(1))
qed


section \<open>Reconciliation\<close>

text \<open>
  C1. The merge of a snapshot and a new synthesis has exactly the union of the two key
  sets; a key of the new synthesis carries the new value, whole; a key of the snapshot only
  carries the snapshot's value. The merged dictionary has distinct keys again.
\<close>

theorem merge_port_configs_union:
  assumes "distinct (map fst current)" and "distinct (map fst new)"
  shows "dict_keys (merge_port_configs current new esi) = dict_keys current \<union> dict_keys new
       \<and> (\<forall>k v. map_of new k = Some v \<longrightarrow> map_of (merge_port_configs current new esi) k = Some v)
       \<and> (\<forall>k. k \<notin> dict_keys new \<longrightarrow>
             map_of (merge_port_configs current new esi) k = map_of current k)
       \<and> distinct (map fst (merge_port_configs current new esi))"
proof -
  let ?base = "fold (\<lambda>(k, v) m. dict_set m k v) current ([] :: (string, 'a) dict)"
  have base: "map_of ?base = map_of current"
    using map_of_fold_set [OF assms(1), of "[]"] by simp
  have m: "map_of (merge_port_configs current new esi) = map_of current ++ map_of new"
    unfolding merge_port_configs_def using map_of_fold_set [OF assms(2), of ?base] base by simp
  have keys: "dict_keys (merge_port_configs current new esi) = dict_keys current \<union> dict_keys new"
    unfolding merge_port_configs_def by (simp only: dict_keys_fold_set) (simp add: dict_keys_def)
  have d: "distinct (map fst (merge_port_configs current new esi))"
    unfolding merge_port_configs_def by (intro distinct_fold_set) simp
  have new: "\<forall>k v. map_of new k = Some v \<longrightarrow> map_of (merge_port_configs current new esi) k = Some v"
    by (simp add: m)
  have old: "\<forall>k. k \<notin> dict_keys new \<longrightarrow>
      map_of (merge_port_configs current new esi) k = map_of current k"
    by (auto simp: m dict_keys_def map_add_def map_of_eq_None_iff split: option.splits
        dest: map_of_SomeD intro: rev_image_eqI)
  from keys new old d show ?thesis by blast
qed

theorem merge_port_configs_union_witness:
  "distinct (map fst [(''P1'', ''A''), (''P2'', ''B'')])
   \<and> distinct (map fst [(''P2'', ''C''), (''P3'', ''D'')])
   \<and> merge_port_configs [(''P1'', ''A''), (''P2'', ''B'')] [(''P2'', ''C''), (''P3'', ''D'')]
        ''EVPN-ESI-LAG'' = [(''P1'', ''A''), (''P2'', ''C''), (''P3'', ''D'')]
   \<and> dict_keys (merge_port_configs [(''P1'', ''A''), (''P2'', ''B'')]
        [(''P2'', ''C''), (''P3'', ''D'')] ''EVPN-ESI-LAG'') = {''P1'', ''P2'', ''P3''}"
  using merge_port_configs_union [of "[(''P1'', ''A''), (''P2'', ''B'')]"
      "[(''P2'', ''C''), (''P3'', ''D'')]" "''EVPN-ESI-LAG''"]
  by (simp add: merge_port_configs_def dict_set_def dict_keys_def insert_commute)

section \<open>Base-port extraction\<close>

text \<open>
  C8 (as amended). A port name made of a non-empty base without a colon, one colon and one
  or more decimal digits yields the base. Every other port name that does not end in a
  line feed is returned unchanged: a name without a colon, a name with an empty base, with
  a colon inside the base (more than one colon), or with a character other than a digit
  after the colon.
\<close>

theorem get_base_port_channel_suffix:
  "(base \<noteq> [] \<and> CHR '':'' \<notin> set base \<and> digits \<noteq> [] \<and> list_all is_digit digits
      \<longrightarrow> get_base_port (base @ CHR '':'' # digits) = base)
   \<and> (\<not> (\<exists>b ds. port_name = b @ CHR '':'' # ds \<and> b \<noteq> [] \<and> CHR '':'' \<notin> set b
              \<and> ds \<noteq> [] \<and> list_all is_digit ds)
        \<and> (port_name = [] \<or> last port_name \<noteq> CHR 0x0A)
      \<longrightarrow> get_base_port port_name = port_name)"
  using get_base_port_strips [of base digits] get_base_port_keeps [of port_name] by blast

theorem get_base_port_channel_suffix_witness:
  "get_base_port ''et-0/0/0:1'' = ''et-0/0/0'' \<and> get_base_port ''et-0/0/0:x'' = ''et-0/0/0:x''"
proof -
  have no: "\<not> (\<exists>b ds. ''et-0/0/0:x'' = b @ CHR '':'' # ds \<and> b \<noteq> [] \<and> CHR '':'' \<notin> set b
              \<and> ds \<noteq> [] \<and> list_all is_digit ds)"
  proof
    assume "\<exists>b ds. ''et-0/0/0:x'' = b @ CHR '':'' # ds \<and> b \<noteq> [] \<and> CHR '':'' \<notin> set b
              \<and> ds \<noteq> [] \<and> list_all is_digit ds"
    then obtain b ds where eq: "''et-0/0/0:x'' = b @ CHR '':'' # ds" and ds: "ds \<noteq> []"
      and dig: "list_all is_digit ds" by blast
    have "last (b @ CHR '':'' # ds) = last ds" using ds by simp
    then have "last ds = CHR ''x''" by (simp only: eq [symmetric]) simp
    moreover have "is_digit (last ds)" using ds dig by (simp add: list_all_iff)
    ultimately show False by (simp add: is_digit_def)
  qed
  have hyp: "''et-0/0/0'' \<noteq> [] \<and> CHR '':'' \<notin> set ''et-0/0/0'' \<and> ''1'' \<noteq> []
      \<and> list_all is_digit ''1''"
    by (simp add: is_digit_def)
  have nl: "''et-0/0/0:x'' = [] \<or> last ''et-0/0/0:x'' \<noteq> CHR 0x0A" by simp
  show ?thesis
    using get_base_port_channel_suffix [of "''et-0/0/0''" "''1''" "''et-0/0/0:x''"] no hyp nl
    by simp
qed

text \<open>
  The claim as stated, for every port name, fails where the name has a second colon: the
  trailing \<open>:2\<close> is not stripped. It also fails where a line feed follows the digits: the
  suffix is stripped although a character after the colon is not a digit.
\<close>

theorem get_base_port_counterexample:
  "get_base_port ''et-0/0/0:1:2'' = ''et-0/0/0:1:2''
   \<and> get_base_port ''et-0/0/0:1:2'' \<noteq> ''et-0/0/0:1''
   \<and> get_base_port [CHR ''a'', CHR '':'', CHR ''1'', CHR 0x0A] = ''a''"
  by code_simp


section \<open>Static routes\<close>

text \<open>
  C4 (as amended). With \<open>pairs\<close> the whitespace-separated tokens of a static-routes field:
  a token without \<open>@\<close>, or whose part before the first \<open>@\<close> or part after it is empty, is
  skipped and the remaining tokens are parsed; a token is cut at its first \<open>@\<close> only, so
  with a valid network before it, it is stored with everything after that \<open>@\<close> as next
  hop and the remaining tokens are parsed; a token whose part before the first \<open>@\<close> is
  not a valid network ends the parsing of the field: the entries stored so far are the
  result, no later token is parsed, and the function still returns a dictionary, so the
  other fields are parsed by their own calls.
\<close>

theorem parse_static_routes_tokens:
  "(strip t = [] \<or> CHR ''@'' \<notin> set (strip t)
      \<longrightarrow> parse_pairs v (t # ts) r = parse_pairs v ts r)
   \<and> (strip t = a @ CHR ''@'' # b \<and> CHR ''@'' \<notin> set a \<and> (strip a = [] \<or> strip b = [])
      \<longrightarrow> parse_pairs v (t # ts) r = parse_pairs v ts r)
   \<and> (strip t = a @ CHR ''@'' # b \<and> CHR ''@'' \<notin> set a \<and> strip a \<noteq> [] \<and> strip b \<noteq> []
        \<and> v (strip a)
      \<longrightarrow> parse_pairs v (t # ts) r = parse_pairs v ts (dict_set r (strip a) \<lparr>via = strip b\<rparr>))
   \<and> (strip t = a @ CHR ''@'' # b \<and> CHR ''@'' \<notin> set a \<and> strip a \<noteq> [] \<and> strip b \<noteq> []
        \<and> \<not> v (strip a)
      \<longrightarrow> parse_pairs v (t # ts) r = Raised r)
   \<and> parse_static_routes v (Some s) =
        (case parse_pairs v (py_split (strip s)) [] of
           Completed result \<Rightarrow> result
         | Raised result \<Rightarrow> result)"
proof -
  have last: "parse_static_routes v (Some s) =
        (case parse_pairs v (py_split (strip s)) [] of
           Completed result \<Rightarrow> result
         | Raised result \<Rightarrow> result)"
  proof (cases "strip s = []")
    case True
    then show ?thesis by (simp add: parse_static_routes_def py_split_def)
  next
    case False
    then have "s \<noteq> []" by (auto simp: strip_def)
    with False show ?thesis by (simp add: parse_static_routes_def Let_def)
  qed
  have c1: "strip t = [] \<or> CHR ''@'' \<notin> set (strip t)
      \<longrightarrow> parse_pairs v (t # ts) r = parse_pairs v ts r"
    using parse_pairs_no_at [of t v ts r] by blast
  have c2: "strip t = a @ CHR ''@'' # b \<and> CHR ''@'' \<notin> set a \<and> (strip a = [] \<or> strip b = [])
      \<longrightarrow> parse_pairs v (t # ts) r = parse_pairs v ts r"
    using parse_pairs_at [of t a b v ts r] by auto
  have c3: "strip t = a @ CHR ''@'' # b \<and> CHR ''@'' \<notin> set a \<and> strip a \<noteq> [] \<and> strip b \<noteq> []
        \<and> v (strip a)
      \<longrightarrow> parse_pairs v (t # ts) r = parse_pairs v ts (dict_set r (strip a) \<lparr>via = strip b\<rparr>)"
    using parse_pairs_at [of t a b v ts r] by auto
  have c4: "strip t = a @ CHR ''@'' # b \<and> CHR ''@'' \<notin> set a \<and> strip a \<noteq> [] \<and> strip b \<noteq> []
        \<and> \<not> v (strip a)
      \<longrightarrow> parse_pairs v (t # ts) r = Raised r"
    using parse_pairs_at [of t a b v ts r] by auto
  from c1 c2 c3 c4 last show ?thesis by (intro conjI)
qed

theorem parse_static_routes_tokens_witness:
  "parse_pairs sample_ip_network [''nonsense'', ''0.0.0.0/0@10.0.0.1''] []
     = Completed [(''0.0.0.0/0'', \<lparr>via = ''10.0.0.1''\<rparr>)]
   \<and> parse_pairs sample_ip_network [''bogus@10.0.0.254'', ''0.0.0.0/0@10.0.0.1'']
       [(''10.0.0.0/24'', \<lparr>via = ''10.0.0.254''\<rparr>)]
     = Raised [(''10.0.0.0/24'', \<lparr>via = ''10.0.0.254''\<rparr>)]"
proof -
  have s1: "strip ''nonsense'' = ''nonsense''" and s2: "strip ''bogus@10.0.0.254'' = ''bogus@10.0.0.254''"
    and s3: "strip ''bogus'' = ''bogus''" and s4: "strip ''10.0.0.254'' = ''10.0.0.254''"
    by (simp_all add: strip_def is_space_def)
  have h1: "strip ''nonsense'' = [] \<or> CHR ''@'' \<notin> set (strip ''nonsense'')"
    by (simp add: s1)
  have h4: "strip ''bogus@10.0.0.254'' = ''bogus'' @ CHR ''@'' # ''10.0.0.254''
      \<and> CHR ''@'' \<notin> set ''bogus'' \<and> strip ''bogus'' \<noteq> [] \<and> strip ''10.0.0.254'' \<noteq> []
      \<and> \<not> sample_ip_network (strip ''bogus'')"
    by (simp add: s2 s3 s4 sample_ip_network_def)
  have a: "parse_pairs sample_ip_network [''nonsense'', ''0.0.0.0/0@10.0.0.1''] []
      = parse_pairs sample_ip_network [''0.0.0.0/0@10.0.0.1''] []"
    using parse_static_routes_tokens [of "''nonsense''" sample_ip_network
        "[''0.0.0.0/0@10.0.0.1'']" "[]"] h1 by blast
  have b: "parse_pairs sample_ip_network [''bogus@10.0.0.254'', ''0.0.0.0/0@10.0.0.1'']
       [(''10.0.0.0/24'', \<lparr>via = ''10.0.0.254''\<rparr>)]
     = Raised [(''10.0.0.0/24'', \<lparr>via = ''10.0.0.254''\<rparr>)]"
    using parse_static_routes_tokens [of "''bogus@10.0.0.254''" sample_ip_network
        "[''0.0.0.0/0@10.0.0.1'']" "[(''10.0.0.0/24'', \<lparr>via = ''10.0.0.254''\<rparr>)]"
        "''bogus''" "''10.0.0.254''"] h4 by blast
  have c: "parse_pairs sample_ip_network [''0.0.0.0/0@10.0.0.1''] []
      = Completed [(''0.0.0.0/0'', \<lparr>via = ''10.0.0.1''\<rparr>)]"
    by code_simp
  from a b c show ?thesis by simp
qed

text \<open>
  The claim as stated fails twice. A token whose prefix is not a network makes the rest of
  the field unparsed: the second token below is well formed and is parsed when it stands
  alone, but not after \<open>bogus@10.0.0.254\<close>. And a token with two \<open>@\<close> is not skipped.
\<close>

theorem parse_static_routes_counterexample:
  "parse_static_routes sample_ip_network (Some ''bogus@10.0.0.254 0.0.0.0/0@10.0.0.1'') = []
   \<and> parse_static_routes sample_ip_network (Some ''0.0.0.0/0@10.0.0.1'')
       = [(''0.0.0.0/0'', \<lparr>via = ''10.0.0.1''\<rparr>)]
   \<and> parse_static_routes sample_ip_network (Some ''10.0.0.0/24@10.0.0.254@x'')
       = [(''10.0.0.0/24'', \<lparr>via = ''10.0.0.254@x''\<rparr>)]"
  by code_simp

section \<open>Core order\<close>

lemma sorted_core_devices_set:
  "set (sorted_core_devices roles) = {d. (d, ''collapsed-core'') \<in> set roles}"
  by (auto simp: sorted_core_devices_def intro: rev_image_eqI)

lemma sorted_core_devices_sorted: "sorted (sorted_core_devices roles)"
  by (simp add: sorted_core_devices_def)

lemma sorted_core_devices_distinct:
  "distinct (map fst roles) \<Longrightarrow> distinct (sorted_core_devices roles)"
  by (simp add: sorted_core_devices_def distinct_map_filter)

lemma sorted_core_devices_first_two:
  assumes "distinct (map fst roles)" and "2 \<le> length (sorted_core_devices roles)"
  shows "sorted_core_devices roles ! 0 < sorted_core_devices roles ! 1"
proof -
  let ?cd = "sorted_core_devices roles"
  have "?cd ! 0 \<le> ?cd ! 1"
    using sorted_core_devices_sorted [of roles] assms(2) by (simp add: sorted_iff_nth_mono)
  moreover have "?cd ! 0 \<noteq> ?cd ! 1"
  proof -
    have l0: "0 < length ?cd" and l1: "1 < length ?cd" using assms(2) by auto
    have "(?cd ! 0 = ?cd ! 1) = ((0::nat) = 1)"
      by (rule nth_eq_iff_index_eq [OF sorted_core_devices_distinct [OF assms(1)] l0 l1])
    then show ?thesis by simp
  qed
  ultimately show ?thesis by simp
qed

text \<open>
  C7. The devices with role collapsed-core are put in lexicographic order of their names;
  with at least two of them, the first in that order has offset 1 and the second offset 2.
\<close>

theorem core_offsets_order:
  assumes "distinct (map fst roles)" and "2 \<le> length (sorted_core_devices roles)"
  shows "sorted (sorted_core_devices roles)
    \<and> distinct (sorted_core_devices roles)
    \<and> set (sorted_core_devices roles) = {d. (d, ''collapsed-core'') \<in> set roles}
    \<and> sorted_core_devices roles ! 0 < sorted_core_devices roles ! 1
    \<and> (\<exists>offsets. core_offsets roles = Inr offsets
          \<and> offset_of offsets (sorted_core_devices roles ! 0) = 1
          \<and> offset_of offsets (sorted_core_devices roles ! 1) = 2)"
proof -
  let ?cd = "sorted_core_devices roles"
  have lt: "?cd ! 0 < ?cd ! 1"
    by (rule sorted_core_devices_first_two [OF assms])
  then have ne: "?cd ! 0 \<noteq> ?cd ! 1" by simp
  let ?o = "dict_set (dict_set [] (?cd ! 0) 1) (?cd ! 1) (2::int)"
  have co: "core_offsets roles = Inr ?o"
    using assms(2) by (simp add: core_offsets_def Let_def)
  have o0: "offset_of ?o (?cd ! 0) = 1"
    using ne by (simp add: offset_of_def map_of_dict_set)
  have o1: "offset_of ?o (?cd ! 1) = 2"
    by (simp add: offset_of_def map_of_dict_set)
  from co o0 o1 have ex: "\<exists>offsets. core_offsets roles = Inr offsets
          \<and> offset_of offsets (?cd ! 0) = 1 \<and> offset_of offsets (?cd ! 1) = 2"
    by blast
  from sorted_core_devices_sorted [of roles] sorted_core_devices_distinct [OF assms(1)]
    sorted_core_devices_set [of roles] lt ex
  show ?thesis by (intro conjI)
qed

theorem core_offsets_order_witness:
  "distinct (map fst [(''D2'', ''collapsed-core''), (''A1'', ''access''), (''D1'', ''collapsed-core'')])
   \<and> sorted_core_devices [(''D2'', ''collapsed-core''), (''A1'', ''access''), (''D1'', ''collapsed-core'')]
       = [''D1'', ''D2'']
   \<and> (\<exists>offsets. core_offsets [(''D2'', ''collapsed-core''), (''A1'', ''access''), (''D1'', ''collapsed-core'')]
          = Inr offsets \<and> offset_of offsets ''D1'' = 1 \<and> offset_of offsets ''D2'' = 2)"
proof -
  let ?roles = "[(''D2'', ''collapsed-core''), (''A1'', ''access''), (''D1'', ''collapsed-core'')]"
  have d: "distinct (map fst ?roles)" by simp
  have cd: "sorted_core_devices ?roles = [''D1'', ''D2'']"
    by (simp add: sorted_core_devices_def)
  have l: "2 \<le> length (sorted_core_devices ?roles)" by (simp add: cd)
  show ?thesis
    using core_offsets_order [OF d l] d by (simp add: cd)
qed


section \<open>Secondary addresses\<close>

lemma ip_add_Inr:
  "ip_add a k = Inr b \<Longrightarrow> b = with_int a (address_int a + k)"
  by (simp add: ip_add_def Let_def split: if_splits)

lemma ip_add_in_range:
  "0 \<le> address_int a + k \<Longrightarrow> address_int a + k \<le> 2 ^ max_prefixlen a - 1
   \<Longrightarrow> ip_add a k = Inr (with_int a (address_int a + k))"
  by (simp add: ip_add_def Let_def)

lemma add_gateway4_Inr:
  assumes "add_gateway4 parse k gw entry = Inr e"
  shows "if truthy gw
     then \<exists>i4. parse (the gw) = Some i4
        \<and> e = entry\<lparr>type := Some ''static'',
              ip_field := Some (with_int (ip i4) (address_int (ip i4) + k)),
              netmask_field := Some (netmask i4)\<rparr>
     else e = entry"
  using assms
  by (auto simp: add_gateway4_def split: if_splits option.splits sum.splits dest: ip_add_Inr)

lemma add_gateway6_Inr:
  assumes "add_gateway6 parse k gw entry = Inr e"
  shows "if truthy gw
     then \<exists>i6. parse (the gw) = Some i6
        \<and> e = entry\<lparr>type6 := Some ''static'',
              ip6 := Some (with_int (ip i6) (address_int (ip i6) + k)),
              netmask6 := Some (prefixlen i6)\<rparr>
     else e = entry"
  using assms
  by (auto simp: add_gateway6_def split: if_splits option.splits sum.splits dest: ip_add_Inr)

text \<open>What the entry of a row holds for each family.\<close>

lemma make_entry_Inr:
  assumes "make_entry parse k net = Inr e"
  shows "(truthy (GATEWAY net) \<longrightarrow>
            (\<exists>i4. parse (the (GATEWAY net)) = Some i4 \<and> type e = Some ''static''
               \<and> ip_field e = Some (with_int (ip i4) (address_int (ip i4) + k))
               \<and> netmask_field e = Some (netmask i4)))
       \<and> (\<not> truthy (GATEWAY net) \<longrightarrow>
            type e = None \<and> ip_field e = None \<and> netmask_field e = None)
       \<and> (truthy (GATEWAY6 net) \<longrightarrow>
            (\<exists>i6. parse (the (GATEWAY6 net)) = Some i6 \<and> type6 e = Some ''static''
               \<and> ip6 e = Some (with_int (ip i6) (address_int (ip i6) + k))
               \<and> netmask6 e = Some (prefixlen i6)))
       \<and> (\<not> truthy (GATEWAY6 net) \<longrightarrow>
            type6 e = None \<and> ip6 e = None \<and> netmask6 e = None)
       \<and> (e = empty_entry \<longleftrightarrow> \<not> truthy (GATEWAY net) \<and> \<not> truthy (GATEWAY6 net))"
proof -
  from assms obtain e4 where e4: "add_gateway4 parse k (GATEWAY net) empty_entry = Inr e4"
    and e6: "add_gateway6 parse k (GATEWAY6 net) e4 = Inr e"
    by (auto simp: make_entry_def split: sum.splits)
  show ?thesis
    using add_gateway4_Inr [OF e4] add_gateway6_Inr [OF e6]
    by (auto simp: empty_entry_def split: if_splits)
qed

lemma loop_untouched:
  assumes "other_ip_configs_loop parse k rows cfg0 = Inr cfg"
    and "n \<notin> network_name ` set rows"
  shows "map_of cfg n = map_of cfg0 n"
  using assms
proof (induction rows arbitrary: cfg0)
  case Nil
  then show ?case by simp
next
  case (Cons net rows)
  from Cons.prems(2) have n1: "n \<noteq> network_name net" and n2: "n \<notin> network_name ` set rows"
    by auto
  show ?case
  proof (cases "network_name net = []")
    case True
    with Cons.prems(1) have "other_ip_configs_loop parse k rows cfg0 = Inr cfg" by simp
    then show ?thesis by (rule Cons.IH [OF _ n2])
  next
    case False
    with Cons.prems(1) obtain e where e: "make_entry parse k net = Inr e"
      by (auto simp: Let_def split: sum.splits)
    show ?thesis
    proof (cases "e = empty_entry")
      case True
      with False e Cons.prems(1) have "other_ip_configs_loop parse k rows cfg0 = Inr cfg"
        by (simp add: Let_def)
      then show ?thesis by (rule Cons.IH [OF _ n2])
    next
      case ne: False
      with False e Cons.prems(1)
      have "other_ip_configs_loop parse k rows (dict_set cfg0 (network_name net) e) = Inr cfg"
        by (simp add: Let_def)
      then have "map_of cfg n = map_of (dict_set cfg0 (network_name net) e) n"
        by (rule Cons.IH [OF _ n2])
      then show ?thesis using n1 by (simp add: map_of_dict_set)
    qed
  qed
qed

lemma loop_rows:
  assumes "other_ip_configs_loop parse k rows cfg0 = Inr cfg"
    and "distinct (map network_name (filter (\<lambda>net. network_name net \<noteq> []) rows))"
    and "net \<in> set rows" and "network_name net \<noteq> []"
  shows "\<exists>e. make_entry parse k net = Inr e
     \<and> map_of cfg (network_name net)
         = (if e \<noteq> empty_entry then Some e else map_of cfg0 (network_name net))"
  using assms
proof (induction rows arbitrary: cfg0)
  case Nil
  then show ?case by simp
next
  case (Cons r rows)
  show ?case
  proof (cases "network_name r = []")
    case True
    with Cons.prems have l: "other_ip_configs_loop parse k rows cfg0 = Inr cfg"
      and d: "distinct (map network_name (filter (\<lambda>net. network_name net \<noteq> []) rows))"
      and m: "net \<in> set rows"
      by auto
    show ?thesis by (rule Cons.IH [OF l d m Cons.prems(4)])
  next
    case False
    with Cons.prems(1) obtain e where e: "make_entry parse k r = Inr e"
      by (auto simp: Let_def split: sum.splits)
    from False Cons.prems(2)
    have d: "distinct (map network_name (filter (\<lambda>net. network_name net \<noteq> []) rows))"
      and fresh: "network_name r \<notin> network_name ` {x \<in> set rows. network_name x \<noteq> []}"
      by auto
    from fresh False have fresh': "network_name r \<notin> network_name ` set rows"
      by auto
    let ?cfg1 = "if e \<noteq> empty_entry then dict_set cfg0 (network_name r) e else cfg0"
    have l: "other_ip_configs_loop parse k rows ?cfg1 = Inr cfg"
      using False e Cons.prems(1) by (cases "e = empty_entry") (simp_all add: Let_def)
    show ?thesis
    proof (cases "net = r")
      case True
      have "map_of cfg (network_name r) = map_of ?cfg1 (network_name r)"
        by (rule loop_untouched [OF l fresh'])
      then show ?thesis
        using e True by (auto simp: map_of_dict_set)
    next
      case ne: False
      with Cons.prems(3) have m: "net \<in> set rows" by simp
      then have nn: "network_name net \<noteq> network_name r"
        using fresh' by (metis imageI)
      from Cons.IH [OF l d m Cons.prems(4)] obtain e' where
        e': "make_entry parse k net = Inr e'"
        and v: "map_of cfg (network_name net)
           = (if e' \<noteq> empty_entry then Some e' else map_of ?cfg1 (network_name net))"
        by blast
      have "map_of ?cfg1 (network_name net) = map_of cfg0 (network_name net)"
        using nn by (simp add: map_of_dict_set)
      with e' v show ?thesis by simp
    qed
  qed
qed

lemma loop_succeeds:
  assumes "\<forall>net \<in> set rows. network_name net \<noteq> [] \<longrightarrow> (\<exists>e. make_entry parse k net = Inr e)"
  shows "\<exists>cfg. other_ip_configs_loop parse k rows cfg0 = Inr cfg"
  using assms
proof (induction rows arbitrary: cfg0)
  case Nil
  then show ?case by simp
next
  case (Cons r rows)
  then show ?case by (auto simp: Let_def split: sum.splits)
qed

text \<open>
  C5. Where \<open>make_other_ip_configs\<close> returns, every named row with a gateway for a family
  has an entry whose address for that family is the gateway's address plus the offset, of
  the same family, with the netmask (IPv4 column) or prefix length (IPv6 column) of the
  gateway; a family without a gateway has no field in the entry, and a row without any
  gateway has no entry. It returns whenever every gateway is readable and the sums stay
  inside the address space of the family.
\<close>

theorem make_other_ip_configs_offsets:
  assumes "distinct (map network_name (filter (\<lambda>net. network_name net \<noteq> []) rows))"
    and "net \<in> set rows" and "network_name net \<noteq> []"
  shows "(make_other_ip_configs parse rows k = Inr cfg \<longrightarrow>
       (truthy (GATEWAY net) \<longrightarrow>
          (\<exists>i4 e. parse (the (GATEWAY net)) = Some i4
             \<and> map_of cfg (network_name net) = Some e \<and> type e = Some ''static''
             \<and> ip_field e = Some (with_int (ip i4) (address_int (ip i4) + k))
             \<and> netmask_field e = Some (netmask i4)))
     \<and> (truthy (GATEWAY6 net) \<longrightarrow>
          (\<exists>i6 e. parse (the (GATEWAY6 net)) = Some i6
             \<and> map_of cfg (network_name net) = Some e \<and> type6 e = Some ''static''
             \<and> ip6 e = Some (with_int (ip i6) (address_int (ip i6) + k))
             \<and> netmask6 e = Some (prefixlen i6)))
     \<and> (\<not> truthy (GATEWAY net) \<longrightarrow>
          (\<forall>e. map_of cfg (network_name net) = Some e \<longrightarrow>
             type e = None \<and> ip_field e = None \<and> netmask_field e = None))
     \<and> (\<not> truthy (GATEWAY6 net) \<longrightarrow>
          (\<forall>e. map_of cfg (network_name net) = Some e \<longrightarrow>
             type6 e = None \<and> ip6 e = None \<and> netmask6 e = None))
     \<and> (\<not> truthy (GATEWAY net) \<and> \<not> truthy (GATEWAY6 net) \<longrightarrow>
          map_of cfg (network_name net) = None))
   \<and> ((\<forall>r \<in> set rows. network_name r \<noteq> [] \<longrightarrow>
          (\<forall>g. (truthy (GATEWAY r) \<and> g = the (GATEWAY r)) \<or> (truthy (GATEWAY6 r) \<and> g = the (GATEWAY6 r))
             \<longrightarrow> (\<exists>i. parse g = Some i \<and> 0 \<le> address_int (ip i) + k
                    \<and> address_int (ip i) + k \<le> 2 ^ max_prefixlen (ip i) - 1)))
       \<longrightarrow> (\<exists>cfg'. make_other_ip_configs parse rows k = Inr cfg'))"
proof (rule conjI)
  show "(\<forall>r \<in> set rows. network_name r \<noteq> [] \<longrightarrow>
          (\<forall>g. (truthy (GATEWAY r) \<and> g = the (GATEWAY r)) \<or> (truthy (GATEWAY6 r) \<and> g = the (GATEWAY6 r))
             \<longrightarrow> (\<exists>i. parse g = Some i \<and> 0 \<le> address_int (ip i) + k
                    \<and> address_int (ip i) + k \<le> 2 ^ max_prefixlen (ip i) - 1)))
       \<longrightarrow> (\<exists>cfg'. make_other_ip_configs parse rows k = Inr cfg')"
  proof
    assume ok: "\<forall>r \<in> set rows. network_name r \<noteq> [] \<longrightarrow>
          (\<forall>g. (truthy (GATEWAY r) \<and> g = the (GATEWAY r)) \<or> (truthy (GATEWAY6 r) \<and> g = the (GATEWAY6 r))
             \<longrightarrow> (\<exists>i. parse g = Some i \<and> 0 \<le> address_int (ip i) + k
                    \<and> address_int (ip i) + k \<le> 2 ^ max_prefixlen (ip i) - 1))"
    have "\<exists>e. make_entry parse k r = Inr e" if r: "r \<in> set rows" "network_name r \<noteq> []" for r
    proof -
      have g4: "\<exists>e4. add_gateway4 parse k (GATEWAY r) empty_entry = Inr e4"
      proof (cases "truthy (GATEWAY r)")
        case True
        with ok r obtain i where "parse (the (GATEWAY r)) = Some i"
          "0 \<le> address_int (ip i) + k" "address_int (ip i) + k \<le> 2 ^ max_prefixlen (ip i) - 1"
          by blast
        then show ?thesis
          using True by (simp add: add_gateway4_def ip_add_in_range)
      next
        case False
        then show ?thesis by (simp add: add_gateway4_def)
      qed
      have g6: "\<exists>e6. add_gateway6 parse k (GATEWAY6 r) e4 = Inr e6" for e4
      proof (cases "truthy (GATEWAY6 r)")
        case True
        with ok r obtain i where "parse (the (GATEWAY6 r)) = Some i"
          "0 \<le> address_int (ip i) + k" "address_int (ip i) + k \<le> 2 ^ max_prefixlen (ip i) - 1"
          by blast
        then show ?thesis
          using True by (simp add: add_gateway6_def ip_add_in_range)
      next
        case False
        then show ?thesis by (simp add: add_gateway6_def)
      qed
      from g4 obtain e4 where e4: "add_gateway4 parse k (GATEWAY r) empty_entry = Inr e4" ..
      from g6 [of e4] obtain e6 where "add_gateway6 parse k (GATEWAY6 r) e4 = Inr e6" ..
      with e4 show ?thesis by (simp add: make_entry_def)
    qed
    then have "\<forall>r \<in> set rows. network_name r \<noteq> [] \<longrightarrow> (\<exists>e. make_entry parse k r = Inr e)"
      by blast
    then show "\<exists>cfg'. make_other_ip_configs parse rows k = Inr cfg'"
      unfolding make_other_ip_configs_def by (rule loop_succeeds)
  qed
next
  show "make_other_ip_configs parse rows k = Inr cfg \<longrightarrow>
       (truthy (GATEWAY net) \<longrightarrow>
          (\<exists>i4 e. parse (the (GATEWAY net)) = Some i4
             \<and> map_of cfg (network_name net) = Some e \<and> type e = Some ''static''
             \<and> ip_field e = Some (with_int (ip i4) (address_int (ip i4) + k))
             \<and> netmask_field e = Some (netmask i4)))
     \<and> (truthy (GATEWAY6 net) \<longrightarrow>
          (\<exists>i6 e. parse (the (GATEWAY6 net)) = Some i6
             \<and> map_of cfg (network_name net) = Some e \<and> type6 e = Some ''static''
             \<and> ip6 e = Some (with_int (ip i6) (address_int (ip i6) + k))
             \<and> netmask6 e = Some (prefixlen i6)))
     \<and> (\<not> truthy (GATEWAY net) \<longrightarrow>
          (\<forall>e. map_of cfg (network_name net) = Some e \<longrightarrow>
             type e = None \<and> ip_field e = None \<and> netmask_field e = None))
     \<and> (\<not> truthy (GATEWAY6 net) \<longrightarrow>
          (\<forall>e. map_of cfg (network_name net) = Some e \<longrightarrow>
             type6 e = None \<and> ip6 e = None \<and> netmask6 e = None))
     \<and> (\<not> truthy (GATEWAY net) \<and> \<not> truthy (GATEWAY6 net) \<longrightarrow>
          map_of cfg (network_name net) = None)"
  proof
    assume run: "make_other_ip_configs parse rows k = Inr cfg"
    then have l: "other_ip_configs_loop parse k rows [] = Inr cfg"
      by (simp add: make_other_ip_configs_def)
    from loop_rows [OF l assms] obtain e where e: "make_entry parse k net = Inr e"
      and v: "map_of cfg (network_name net) = (if e \<noteq> empty_entry then Some e else None)"
      by auto
    note m = make_entry_Inr [OF e]
    have a: "truthy (GATEWAY net) \<longrightarrow>
          (\<exists>i4 e. parse (the (GATEWAY net)) = Some i4
             \<and> map_of cfg (network_name net) = Some e \<and> type e = Some ''static''
             \<and> ip_field e = Some (with_int (ip i4) (address_int (ip i4) + k))
             \<and> netmask_field e = Some (netmask i4))"
      using m v by auto
    have b: "truthy (GATEWAY6 net) \<longrightarrow>
          (\<exists>i6 e. parse (the (GATEWAY6 net)) = Some i6
             \<and> map_of cfg (network_name net) = Some e \<and> type6 e = Some ''static''
             \<and> ip6 e = Some (with_int (ip i6) (address_int (ip i6) + k))
             \<and> netmask6 e = Some (prefixlen i6))"
      using m v by auto
    have c: "\<not> truthy (GATEWAY net) \<longrightarrow>
          (\<forall>e. map_of cfg (network_name net) = Some e \<longrightarrow>
             type e = None \<and> ip_field e = None \<and> netmask_field e = None)"
      using m v by (auto split: if_splits)
    have d: "\<not> truthy (GATEWAY6 net) \<longrightarrow>
          (\<forall>e. map_of cfg (network_name net) = Some e \<longrightarrow>
             type6 e = None \<and> ip6 e = None \<and> netmask6 e = None)"
      using m v by (auto split: if_splits)
    have f: "\<not> truthy (GATEWAY net) \<and> \<not> truthy (GATEWAY6 net) \<longrightarrow>
          map_of cfg (network_name net) = None"
      using m v by auto
    from a b c d f show "(truthy (GATEWAY net) \<longrightarrow>
          (\<exists>i4 e. parse (the (GATEWAY net)) = Some i4
             \<and> map_of cfg (network_name net) = Some e \<and> type e = Some ''static''
             \<and> ip_field e = Some (with_int (ip i4) (address_int (ip i4) + k))
             \<and> netmask_field e = Some (netmask i4)))
     \<and> (truthy (GATEWAY6 net) \<longrightarrow>
          (\<exists>i6 e. parse (the (GATEWAY6 net)) = Some i6
             \<and> map_of cfg (network_name net) = Some e \<and> type6 e = Some ''static''
             \<and> ip6 e = Some (with_int (ip i6) (address_int (ip i6) + k))
             \<and> netmask6 e = Some (prefixlen i6)))
     \<and> (\<not> truthy (GATEWAY net) \<longrightarrow>
          (\<forall>e. map_of cfg (network_name net) = Some e \<longrightarrow>
             type e = None \<and> ip_field e = None \<and> netmask_field e = None))
     \<and> (\<not> truthy (GATEWAY6 net) \<longrightarrow>
          (\<forall>e. map_of cfg (network_name net) = Some e \<longrightarrow>
             type6 e = None \<and> ip6 e = None \<and> netmask6 e = None))
     \<and> (\<not> truthy (GATEWAY net) \<and> \<not> truthy (GATEWAY6 net) \<longrightarrow>
          map_of cfg (network_name net) = None)"
      by (intro conjI)
  qed
qed

theorem make_other_ip_configs_offsets_witness:
  "make_other_ip_configs sample_ip_interface
     [\<lparr>NETWORKNAME = Some ''v10'', GATEWAY = Some ''10.0.0.1/24'', GATEWAY6 = Some ''2001:db8::1/64''\<rparr>] 2
     = Inr [(''v10'', \<lparr>type = Some ''static'', ip_field = Some (IPv4Address 167772163),
          netmask_field = Some (IPv4Address 4294967040), type6 = Some ''static'',
          ip6 = Some (IPv6Address (0x20010db8 * 2 ^ 96 + 3)), netmask6 = Some 64\<rparr>)]
   \<and> (\<exists>i4 e. sample_ip_interface ''10.0.0.1/24'' = Some i4
         \<and> map_of [(''v10'', \<lparr>type = Some ''static'', ip_field = Some (IPv4Address 167772163),
              netmask_field = Some (IPv4Address 4294967040), type6 = Some ''static'',
              ip6 = Some (IPv6Address (0x20010db8 * 2 ^ 96 + 3)), netmask6 = Some 64\<rparr>)] ''v10''
            = Some e
         \<and> ip_field e = Some (with_int (ip i4) (address_int (ip i4) + 2))
         \<and> netmask_field e = Some (netmask i4))"
proof -
  let ?net = "\<lparr>NETWORKNAME = Some ''v10'', GATEWAY = Some ''10.0.0.1/24'',
     GATEWAY6 = Some ''2001:db8::1/64''\<rparr>"
  let ?cfg = "[(''v10'', \<lparr>type = Some ''static'', ip_field = Some (IPv4Address 167772163),
          netmask_field = Some (IPv4Address 4294967040), type6 = Some ''static'',
          ip6 = Some (IPv6Address (0x20010db8 * 2 ^ 96 + 3)), netmask6 = Some 64\<rparr>)]"
  have nm: "network_name ?net = ''v10''"
    by (simp add: network_name_def strip_def is_space_def)
  have d: "distinct (map network_name (filter (\<lambda>net. network_name net \<noteq> []) [?net]))"
    by simp
  have m: "?net \<in> set [?net]" by simp
  have n: "network_name ?net \<noteq> []" by (simp add: nm)
  have t: "truthy (GATEWAY ?net)" by (simp add: truthy_def)
  have run: "make_other_ip_configs sample_ip_interface [?net] 2 = Inr ?cfg"
    by (simp add: make_other_ip_configs_def nm make_entry_def add_gateway4_def add_gateway6_def
        truthy_def sample_ip_interface_def ip_add_def netmask_def empty_entry_def dict_set_def)
  show ?thesis
    using make_other_ip_configs_offsets [OF d m n, of sample_ip_interface 2 ?cfg] run t
    by (simp add: nm)
qed


section \<open>Core links\<close>

lemma is_core_iff:
  "distinct (map fst roles) \<Longrightarrow> is_core roles d \<longleftrightarrow> d \<in> set (sorted_core_devices roles)"
  by (auto simp: is_core_def sorted_core_devices_set dest: map_of_SomeD)

lemma core_links_loop_invariant:
  assumes "seen = set (map link_ends links)" and "distinct (map link_ends links)"
  shows "distinct (map link_ends (core_links_loop cd es seen links))
    \<and> set (map link_ends (core_links_loop cd es seen links))
        = seen \<union> entry_ends ` {e \<in> set es. src_device e \<in> set cd \<and> dst_device e \<in> set cd}"
  using assms
proof (induction es arbitrary: seen links)
  case Nil
  then show ?case by simp
next
  case (Cons e es)
  let ?key = "{(src_device e, src_int e), (dst_device e, dst_int e)}"
  let ?l = "\<lparr>core1 = src_device e, port1 = src_int e, core2 = dst_device e, port2 = dst_int e\<rparr>"
  have key: "link_ends ?l = ?key" "entry_ends e = ?key"
    by (simp_all add: link_ends_def entry_ends_def)
  show ?case
  proof (cases "src_device e \<in> set cd \<and> dst_device e \<in> set cd")
    case False
    have "core_links_loop cd (e # es) seen links = core_links_loop cd es seen links"
      using False by auto
    moreover have "{x \<in> set (e # es). src_device x \<in> set cd \<and> dst_device x \<in> set cd}
        = {x \<in> set es. src_device x \<in> set cd \<and> dst_device x \<in> set cd}"
      using False by auto
    ultimately show ?thesis
      using Cons.IH [OF Cons.prems] by simp
  next
    case True
    have sets: "{x \<in> set (e # es). src_device x \<in> set cd \<and> dst_device x \<in> set cd}
        = insert e {x \<in> set es. src_device x \<in> set cd \<and> dst_device x \<in> set cd}"
      using True by auto
    show ?thesis
    proof (cases "?key \<in> seen")
      case in_seen: True
      have "core_links_loop cd (e # es) seen links = core_links_loop cd es seen links"
        using True in_seen by (simp add: Let_def)
      moreover have "seen \<union> entry_ends ` insert e {x \<in> set es. src_device x \<in> set cd \<and> dst_device x \<in> set cd}
          = seen \<union> entry_ends ` {x \<in> set es. src_device x \<in> set cd \<and> dst_device x \<in> set cd}"
        using in_seen by (auto simp: key)
      ultimately show ?thesis
        using Cons.IH [OF Cons.prems] by (simp only: sets)
    next
      case new: False
      have step: "core_links_loop cd (e # es) seen links
          = core_links_loop cd es (insert ?key seen) (links @ [?l])"
        using True new by (simp add: Let_def)
      have p1: "insert ?key seen = set (map link_ends (links @ [?l]))"
        using Cons.prems(1) by (simp add: key)
      have p2: "distinct (map link_ends (links @ [?l]))"
        using Cons.prems new by (simp add: key)
      have "insert ?key seen \<union> entry_ends ` {x \<in> set es. src_device x \<in> set cd \<and> dst_device x \<in> set cd}
          = seen \<union> entry_ends ` insert e {x \<in> set es. src_device x \<in> set cd \<and> dst_device x \<in> set cd}"
        by (simp add: key)
      then show ?thesis
        using Cons.IH [OF p1 p2] by (simp only: step sets)
    qed
  qed
qed

lemma core_links_of_entries:
  "distinct (map link_ends (core_links_loop cd es {} []))
    \<and> set (map link_ends (core_links_loop cd es {} []))
        = entry_ends ` {e \<in> set es. src_device e \<in> set cd \<and> dst_device e \<in> set cd}"
  using core_links_loop_invariant [of "{}" "[]" cd es] by simp

lemma build_topology_links:
  assumes "build_topology entries roles = Inr (core_links, cpc, apc)"
  shows "core_links = core_links_loop (sorted_core_devices roles) entries {} []"
  using assms
  by (auto simp: build_topology_def Let_def split: if_splits sum.splits prod.splits)

lemma distinct_filter_one:
  assumes "distinct (map f xs)" and "y \<in> f ` set xs"
  shows "length (filter (\<lambda>x. f x = y) xs) = 1"
  using assms
proof (induction xs)
  case Nil
  then show ?case by simp
next
  case (Cons x xs)
  show ?case
  proof (cases "f x = y")
    case True
    with Cons.prems(1) have "y \<notin> f ` set xs" by auto
    then have "filter (\<lambda>x. f x = y) xs = []"
      by (auto simp: filter_empty_conv)
    with True show ?thesis by simp
  next
    case False
    with Cons show ?thesis by auto
  qed
qed

text \<open>
  C3. In the links returned by \<open>_build_topology\<close> no two have the same unordered pair of
  (device, port) endpoints, and the pairs that occur are exactly those of the records
  between two core devices; so two such records that describe one link with source and
  destination swapped have the same pair and give exactly one link.
\<close>

theorem core_links_deduplicated:
  assumes "distinct (map fst roles)"
    and "build_topology entries roles = Inr (core_links, cpc, apc)"
  shows "distinct (map link_ends core_links)
    \<and> set (map link_ends core_links) = entry_ends ` {e \<in> set entries. core_to_core roles e}
    \<and> (\<forall>e1 \<in> set entries. \<forall>e2 \<in> set entries.
          core_to_core roles e1
          \<and> src_device e2 = dst_device e1 \<and> src_int e2 = dst_int e1
          \<and> dst_device e2 = src_device e1 \<and> dst_int e2 = src_int e1
          \<longrightarrow> entry_ends e2 = entry_ends e1
            \<and> length (filter (\<lambda>l. link_ends l = entry_ends e1) core_links) = 1)"
proof -
  let ?cd = "sorted_core_devices roles"
  have cl: "core_links = core_links_loop ?cd entries {} []"
    by (rule build_topology_links [OF assms(2)])
  have same: "{e \<in> set entries. src_device e \<in> set ?cd \<and> dst_device e \<in> set ?cd}
      = {e \<in> set entries. core_to_core roles e}"
    by (simp add: core_to_core_def is_core_iff [OF assms(1)])
  have d: "distinct (map link_ends core_links)"
    and s: "set (map link_ends core_links) = entry_ends ` {e \<in> set entries. core_to_core roles e}"
    using core_links_of_entries [of ?cd entries] by (simp_all only: cl same)
  have pairs: "entry_ends e2 = entry_ends e1
      \<and> length (filter (\<lambda>l. link_ends l = entry_ends e1) core_links) = 1"
    if e1: "e1 \<in> set entries" and cc: "core_to_core roles e1"
      and sw: "src_device e2 = dst_device e1" "src_int e2 = dst_int e1"
        "dst_device e2 = src_device e1" "dst_int e2 = src_int e1"
    for e1 e2
  proof
    show "entry_ends e2 = entry_ends e1"
      by (auto simp: entry_ends_def sw)
    have "entry_ends e1 \<in> link_ends ` set core_links"
      using s e1 cc by auto
    then show "length (filter (\<lambda>l. link_ends l = entry_ends e1) core_links) = 1"
      by (rule distinct_filter_one [OF d])
  qed
  from d s pairs show ?thesis by blast
qed

theorem core_links_deduplicated_witness:
  "build_topology
     [\<lparr>src_device = ''A'', src_int = ''et-0/0/0'', dst_device = ''B'', dst_int = ''et-0/0/1'', ae_idx = None\<rparr>,
      \<lparr>src_device = ''B'', src_int = ''et-0/0/1'', dst_device = ''A'', dst_int = ''et-0/0/0'', ae_idx = None\<rparr>]
     [(''A'', ''collapsed-core''), (''B'', ''collapsed-core'')]
   = Inr ([\<lparr>core1 = ''A'', port1 = ''et-0/0/0'', core2 = ''B'', port2 = ''et-0/0/1''\<rparr>],
          [(''A'', [(''et-0/0/0'', link_cfg ''evpn_downlink'' 1)]),
           (''B'', [(''et-0/0/1'', link_cfg ''evpn_uplink'' 1)])],
          [])
   \<and> length (filter (\<lambda>l. link_ends l = {(''A'', ''et-0/0/0''), (''B'', ''et-0/0/1'')})
        [\<lparr>core1 = ''A'', port1 = ''et-0/0/0'', core2 = ''B'', port2 = ''et-0/0/1''\<rparr>]) = 1"
proof -
  let ?e1 = "\<lparr>src_device = ''A'', src_int = ''et-0/0/0'', dst_device = ''B'', dst_int = ''et-0/0/1'',
    ae_idx = None\<rparr>"
  let ?e2 = "\<lparr>src_device = ''B'', src_int = ''et-0/0/1'', dst_device = ''A'', dst_int = ''et-0/0/0'',
    ae_idx = None\<rparr>"
  let ?roles = "[(''A'', ''collapsed-core''), (''B'', ''collapsed-core'')]"
  let ?links = "[\<lparr>core1 = ''A'', port1 = ''et-0/0/0'', core2 = ''B'', port2 = ''et-0/0/1''\<rparr>]"
  let ?cpc = "[(''A'', [(''et-0/0/0'', link_cfg ''evpn_downlink'' 1)]),
           (''B'', [(''et-0/0/1'', link_cfg ''evpn_uplink'' 1)])]"
  have d: "distinct (map fst ?roles)" by simp
  have cd: "sorted_core_devices ?roles = [''A'', ''B'']"
    by (simp add: sorted_core_devices_def)
  have run: "build_topology [?e1, ?e2] ?roles = Inr (?links, ?cpc, [])"
    by (simp add: build_topology_def cd aggregation_phase_def aggregation_groups_def
        initial_port_config_def dict_set_def set_port_def link_key_def Let_def insert_commute)
  have cc: "core_to_core ?roles ?e1"
    by (simp add: core_to_core_def is_core_def)
  have "length (filter (\<lambda>l. link_ends l = entry_ends ?e1) ?links) = 1"
    using core_links_deduplicated [OF d run] cc by simp
  then show ?thesis
    using run by (simp add: entry_ends_def)
qed


section \<open>Link assignment\<close>

lemma dict_keys_map_of: "k \<in> dict_keys d \<longleftrightarrow> map_of d k \<noteq> None"
  by (simp add: dict_keys_def map_of_eq_None_iff)

lemma set_port_lookup:
  assumes "set_port cpc d p v = Inr cpc'"
  shows "port_lookup cpc' d' p' = (if d' = d \<and> p' = p then Some v else port_lookup cpc d' p')"
proof -
  from assms obtain ports where ports: "map_of cpc d = Some ports"
    and cpc': "cpc' = dict_set cpc d (dict_set ports p v)"
    by (auto simp: set_port_def split: option.splits)
  show ?thesis
    by (simp add: port_lookup_def cpc' map_of_dict_set ports)
qed

lemma set_port_keys:
  assumes "set_port cpc d p v = Inr cpc'"
  shows "dict_keys cpc' = dict_keys cpc"
proof -
  from assms obtain ports where ports: "map_of cpc d = Some ports"
    and cpc': "cpc' = dict_set cpc d (dict_set ports p v)"
    by (auto simp: set_port_def split: option.splits)
  have "d \<in> dict_keys cpc" using ports by (simp add: dict_keys_map_of)
  then show ?thesis by (auto simp: cpc' dict_keys_dict_set)
qed

lemma set_port_ok:
  assumes "d \<in> dict_keys cpc"
  shows "\<exists>cpc'. set_port cpc d p v = Inr cpc'"
  using assms by (auto simp: set_port_def dict_keys_map_of)

lemma links_loop_step:
  "links_loop i (l # ls) cpc =
     (case set_port cpc (core1 l) (port1 l) (link_cfg (usage1 i) i) of
        Inl e \<Rightarrow> Inl e
      | Inr cfg1 \<Rightarrow>
          (case set_port cfg1 (core2 l) (port2 l) (link_cfg (usage2 i) i) of
             Inl e \<Rightarrow> Inl e
           | Inr cfg2 \<Rightarrow> links_loop (Suc i) ls cfg2))"
  by (cases "i mod 2 = 1") (simp_all add: usage1_def usage2_def split: sum.splits)

lemma links_loop_ConsE:
  assumes "links_loop i (l # ls) cpc = Inr cpc'"
  obtains cfg1 cfg2 where "set_port cpc (core1 l) (port1 l) (link_cfg (usage1 i) i) = Inr cfg1"
    and "set_port cfg1 (core2 l) (port2 l) (link_cfg (usage2 i) i) = Inr cfg2"
    and "links_loop (Suc i) ls cfg2 = Inr cpc'"
  using assms unfolding links_loop_step by (auto split: sum.splits)

lemma links_loop_untouched:
  assumes "links_loop i ls cpc = Inr cpc'" and "(d, p) \<notin> \<Union> (link_ends ` set ls)"
  shows "port_lookup cpc' d p = port_lookup cpc d p"
  using assms
proof (induction ls arbitrary: i cpc)
  case Nil
  then show ?case by simp
next
  case (Cons l ls)
  from Cons.prems(1) obtain cfg1 cfg2 where
    s1: "set_port cpc (core1 l) (port1 l) (link_cfg (usage1 i) i) = Inr cfg1"
    and s2: "set_port cfg1 (core2 l) (port2 l) (link_cfg (usage2 i) i) = Inr cfg2"
    and rest: "links_loop (Suc i) ls cfg2 = Inr cpc'"
    by (rule links_loop_ConsE)
  from Cons.prems(2) have n1: "(d, p) \<noteq> (core1 l, port1 l)" and n2: "(d, p) \<noteq> (core2 l, port2 l)"
    and nr: "(d, p) \<notin> \<Union> (link_ends ` set ls)"
    by (auto simp: link_ends_def)
  have "port_lookup cpc' d p = port_lookup cfg2 d p"
    by (rule Cons.IH [OF rest nr])
  also have "\<dots> = port_lookup cfg1 d p"
    using n2 by (auto simp: set_port_lookup [OF s2])
  also have "\<dots> = port_lookup cpc d p"
    using n1 by (auto simp: set_port_lookup [OF s1])
  finally show ?case .
qed

lemma links_loop_keys:
  assumes "links_loop i ls cpc = Inr cpc'"
  shows "dict_keys cpc' = dict_keys cpc"
  using assms
proof (induction ls arbitrary: i cpc)
  case Nil
  then show ?case by simp
next
  case (Cons l ls)
  from Cons.prems(1) obtain cfg1 cfg2 where
    s1: "set_port cpc (core1 l) (port1 l) (link_cfg (usage1 i) i) = Inr cfg1"
    and s2: "set_port cfg1 (core2 l) (port2 l) (link_cfg (usage2 i) i) = Inr cfg2"
    and rest: "links_loop (Suc i) ls cfg2 = Inr cpc'"
    by (rule links_loop_ConsE)
  show ?case
    using Cons.IH [OF rest] set_port_keys [OF s1] set_port_keys [OF s2] by simp
qed

lemma links_loop_ok:
  assumes "\<forall>l \<in> set ls. core1 l \<in> dict_keys cpc \<and> core2 l \<in> dict_keys cpc"
  shows "\<exists>cpc'. links_loop i ls cpc = Inr cpc'"
  using assms
proof (induction ls arbitrary: i cpc)
  case Nil
  then show ?case by simp
next
  case (Cons l ls)
  have c1: "core1 l \<in> dict_keys cpc" and c2: "core2 l \<in> dict_keys cpc"
    using Cons.prems by simp_all
  obtain cfg1 where
    s1: "set_port cpc (core1 l) (port1 l) (link_cfg (usage1 i) i) = Inr cfg1"
    using set_port_ok [OF c1, of "port1 l" "link_cfg (usage1 i) i"] by blast
  have k1: "dict_keys cfg1 = dict_keys cpc" by (rule set_port_keys [OF s1])
  have c2': "core2 l \<in> dict_keys cfg1" using c2 k1 by simp
  obtain cfg2 where
    s2: "set_port cfg1 (core2 l) (port2 l) (link_cfg (usage2 i) i) = Inr cfg2"
    using set_port_ok [OF c2', of "port2 l" "link_cfg (usage2 i) i"] by blast
  have k2: "dict_keys cfg2 = dict_keys cpc"
    using set_port_keys [OF s2] k1 by simp
  have "\<forall>l \<in> set ls. core1 l \<in> dict_keys cfg2 \<and> core2 l \<in> dict_keys cfg2"
    using Cons.prems k2 by simp
  from Cons.IH [OF this, of "Suc i"] show ?case
    by (simp only: links_loop_step s1 s2 sum.case)
qed

lemma links_loop_append:
  "links_loop i (xs @ ys) cpc =
     (case links_loop i xs cpc of Inl e \<Rightarrow> Inl e | Inr s \<Rightarrow> links_loop (i + length xs) ys s)"
proof (induction xs arbitrary: i cpc)
  case Nil
  show ?case by simp
next
  case (Cons x xs)
  show ?case
    unfolding append_Cons links_loop_step
    by (simp add: Cons.IH split: sum.splits)
qed

text \<open>The state right after the iteration for a link.\<close>

lemma links_loop_last:
  assumes "links_loop i (xs @ [l]) cpc = Inr s"
  shows "port_lookup s (core2 l) (port2 l)
           = Some (link_cfg (usage2 (i + length xs)) (i + length xs))"
    and "(core1 l, port1 l) \<noteq> (core2 l, port2 l) \<Longrightarrow>
         port_lookup s (core1 l) (port1 l)
           = Some (link_cfg (usage1 (i + length xs)) (i + length xs))"
proof -
  let ?n = "i + length xs"
  from assms obtain s0 where s0: "links_loop i xs cpc = Inr s0"
    and l: "links_loop ?n [l] s0 = Inr s"
    by (auto simp: links_loop_append split: sum.splits)
  from l obtain cfg1 cfg2 where
    s1: "set_port s0 (core1 l) (port1 l) (link_cfg (usage1 ?n) ?n) = Inr cfg1"
    and s2: "set_port cfg1 (core2 l) (port2 l) (link_cfg (usage2 ?n) ?n) = Inr cfg2"
    and rest: "links_loop (Suc ?n) [] cfg2 = Inr s"
    by (rule links_loop_ConsE)
  from rest have s: "s = cfg2" by simp
  show "port_lookup s (core2 l) (port2 l) = Some (link_cfg (usage2 ?n) ?n)"
    by (simp add: s set_port_lookup [OF s2])
  show "port_lookup s (core1 l) (port1 l) = Some (link_cfg (usage1 ?n) ?n)"
    if "(core1 l, port1 l) \<noteq> (core2 l, port2 l)"
    using that by (auto simp: s set_port_lookup [OF s2] set_port_lookup [OF s1])
qed


lemma build_topology_InrE:
  assumes "build_topology entries roles = Inr (core_links, cpc, apc)"
  obtains agg where "2 \<le> length (sorted_core_devices roles)"
    and "core_links = core_links_loop (sorted_core_devices roles) entries {} []"
    and "aggregation_phase entries roles = Inr (agg, apc)"
    and "links_loop 1 (sort_key link_key core_links) agg = Inr cpc"
  using assms
  by (auto simp: build_topology_def Let_def not_less split: if_splits sum.splits prod.splits)





section \<open>Aggregation and core links on one port\<close>

lemma initial_port_config_keys_aux:
  "dict_keys (fold (\<lambda>c d. dict_set d c []) cs d0) = dict_keys d0 \<union> set cs"
  by (induction cs arbitrary: d0) (auto simp: dict_keys_dict_set)

lemma initial_port_config_keys: "dict_keys (initial_port_config cs) = set cs"
proof -
  have "dict_keys ([] :: port_config) = {}" by (simp add: dict_keys_def)
  then show ?thesis
    unfolding initial_port_config_def by (simp only: initial_port_config_keys_aux) simp
qed

lemma conns_loop_ConsE:
  assumes "conns_loop roles ae (c # conns) cpc ad aps = Inr r"
  obtains ports where "map_of cpc (fst (core_end roles c)) = Some ports"
    and "map_of ports (snd (core_end roles c)) = None"
    and "conns_loop roles ae conns
           (dict_set cpc (fst (core_end roles c))
              (dict_set ports (snd (core_end roles c)) (esi_lag_core ae)))
           (Some (fst (access_end roles c))) (aps @ [snd (access_end roles c)]) = Inr r"
  using assms
  by (auto simp: Let_def split: prod.splits option.splits if_splits)

lemma conns_loop_keys:
  assumes "conns_loop roles ae conns cpc ad aps = Inr (cpc', ad', aps')"
  shows "dict_keys cpc' = dict_keys cpc"
  using assms
proof (induction conns arbitrary: cpc ad aps)
  case Nil
  then show ?case by simp
next
  case (Cons c conns)
  from Cons.prems obtain ports where p: "map_of cpc (fst (core_end roles c)) = Some ports"
    and rest: "conns_loop roles ae conns
           (dict_set cpc (fst (core_end roles c))
              (dict_set ports (snd (core_end roles c)) (esi_lag_core ae)))
           (Some (fst (access_end roles c))) (aps @ [snd (access_end roles c)]) = Inr (cpc', ad', aps')"
    by (rule conns_loop_ConsE)
  have "fst (core_end roles c) \<in> dict_keys cpc"
    using p by (simp add: dict_keys_map_of)
  then show ?case
    using Cons.IH [OF rest] by (auto simp: dict_keys_dict_set)
qed

lemma groups_loop_ConsE:
  assumes "groups_loop roles ((ae, conns) # groups) cpc apc = Inr r"
  obtains cpc1 ad aps where "length conns = 2"
    and "conns_loop roles ae conns cpc None [] = Inr (cpc1, ad, aps)"
    and "groups_loop roles groups cpc1
           (dict_set apc ad [(port_key aps, esi_lag_access ae)]) = Inr r"
  using assms
  by (auto split: if_splits sum.splits prod.splits)

lemma groups_loop_keys:
  assumes "groups_loop roles groups cpc apc = Inr (cpc', apc')"
  shows "dict_keys cpc' = dict_keys cpc"
  using assms
proof (induction groups arbitrary: cpc apc)
  case Nil
  then show ?case by simp
next
  case (Cons g groups)
  obtain ae conns where g: "g = (ae, conns)" by (cases g)
  from Cons.prems obtain cpc1 ad aps where
    c: "conns_loop roles ae conns cpc None [] = Inr (cpc1, ad, aps)"
    and rest: "groups_loop roles groups cpc1
           (dict_set apc ad [(port_key aps, esi_lag_access ae)]) = Inr (cpc', apc')"
    unfolding g by (rule groups_loop_ConsE)
  show ?case
    using Cons.IH [OF rest] conns_loop_keys [OF c] by simp
qed

lemma aggregation_phase_keys:
  assumes "aggregation_phase entries roles = Inr (agg, apc)"
  shows "dict_keys agg = set (sorted_core_devices roles)"
  using groups_loop_keys [OF assms [unfolded aggregation_phase_def]]
  by (simp add: initial_port_config_keys)

lemma core_links_loop_cores:
  assumes "\<forall>l \<in> set links. core1 l \<in> set cd \<and> core2 l \<in> set cd"
  shows "\<forall>l \<in> set (core_links_loop cd es seen links). core1 l \<in> set cd \<and> core2 l \<in> set cd"
  using assms
proof (induction es arbitrary: seen links)
  case Nil
  then show ?case by simp
next
  case (Cons e es)
  show ?case
  proof (cases "src_device e \<in> set cd \<and> dst_device e \<in> set cd")
    case False
    then have "core_links_loop cd (e # es) seen links = core_links_loop cd es seen links"
      by auto
    then show ?thesis using Cons.IH [OF Cons.prems] by simp
  next
    case True
    let ?l = "\<lparr>core1 = src_device e, port1 = src_int e, core2 = dst_device e, port2 = dst_int e\<rparr>"
    have ext: "\<forall>l \<in> set (links @ [?l]). core1 l \<in> set cd \<and> core2 l \<in> set cd"
      using Cons.prems True by auto
    show ?thesis
      using Cons.IH [OF Cons.prems] Cons.IH [OF ext] True
      by (simp add: Let_def del: set_append)
  qed
qed

lemma links_loop_written:
  assumes "links_loop i ls cpc = Inr cpc'" and "(d, p) \<in> \<Union> (link_ends ` set ls)"
  shows "\<exists>u n. port_lookup cpc' d p = Some (link_cfg u n)
     \<and> (u = ''evpn_uplink'' \<or> u = ''evpn_downlink'') \<and> i \<le> n \<and> n < i + length ls"
  using assms
proof (induction ls arbitrary: i cpc)
  case Nil
  then show ?case by simp
next
  case (Cons l ls)
  from Cons.prems(1) obtain cfg1 cfg2 where
    s1: "set_port cpc (core1 l) (port1 l) (link_cfg (usage1 i) i) = Inr cfg1"
    and s2: "set_port cfg1 (core2 l) (port2 l) (link_cfg (usage2 i) i) = Inr cfg2"
    and rest: "links_loop (Suc i) ls cfg2 = Inr cpc'"
    by (rule links_loop_ConsE)
  show ?case
  proof (cases "(d, p) \<in> \<Union> (link_ends ` set ls)")
    case True
    from Cons.IH [OF rest True] obtain u n where
      "port_lookup cpc' d p = Some (link_cfg u n)"
      "u = ''evpn_uplink'' \<or> u = ''evpn_downlink''" "Suc i \<le> n" "n < Suc i + length ls"
      by blast
    then show ?thesis
      by (intro exI [of _ u] exI [of _ n]) simp
  next
    case False
    with Cons.prems(2) have here: "(d, p) = (core1 l, port1 l) \<or> (d, p) = (core2 l, port2 l)"
      by (auto simp: link_ends_def)
    have "port_lookup cpc' d p = port_lookup cfg2 d p"
      by (rule links_loop_untouched [OF rest False])
    also have "\<dots> = Some (link_cfg (if (d, p) = (core2 l, port2 l) then usage2 i else usage1 i) i)"
      using here by (auto simp: set_port_lookup [OF s2] set_port_lookup [OF s1])
    finally have v: "port_lookup cpc' d p
        = Some (link_cfg (if (d, p) = (core2 l, port2 l) then usage2 i else usage1 i) i)" .
    have "(if (d, p) = (core2 l, port2 l) then usage2 i else usage1 i) = ''evpn_uplink''
        \<or> (if (d, p) = (core2 l, port2 l) then usage2 i else usage1 i) = ''evpn_downlink''"
      by (simp add: usage1_def usage2_def)
    with v show ?thesis
      by (intro exI [of _ "if (d, p) = (core2 l, port2 l) then usage2 i else usage1 i"]
          exI [of _ i]) simp
  qed
qed

lemma ae_groups_loop_filter:
  assumes "\<forall>e \<in> set es. is_leg roles e \<longrightarrow> P e"
  shows "ae_groups_loop roles (filter P es) g = ae_groups_loop roles es g"
  using assms
proof (induction es arbitrary: g)
  case Nil
  show ?case by simp
next
  case (Cons e es)
  then show ?case
    by (cases "ae_idx e") (auto simp: is_leg_def Let_def)
qed

lemma aggregation_phase_without_core_links:
  "aggregation_phase (filter (\<lambda>e. \<not> core_to_core roles e) entries) roles
     = aggregation_phase entries roles"
proof -
  have "\<forall>e \<in> set entries. is_leg roles e \<longrightarrow> \<not> core_to_core roles e"
    by (auto simp: is_leg_def core_to_core_def)
  then show ?thesis
    by (simp add: aggregation_phase_def aggregation_groups_def ae_groups_loop_filter)
qed

lemma link_cfg_fields:
  "usage (link_cfg u n) = u" "aggregated (link_cfg u n) = None" "esilag (link_cfg u n) = None"
  "port_ae_idx (link_cfg u n) = None" "link_name (link_cfg u n) = Some (''link'' @ str_nat n)"
  by (simp_all add: link_cfg_def del: str_nat.simps)

lemma esi_lag_core_fields:
  "usage (esi_lag_core ae) = ''EVPN-ESI-LAG''" "aggregated (esi_lag_core ae) = Some True"
  "esilag (esi_lag_core ae) = Some True" "port_ae_idx (esi_lag_core ae) = Some ae"
  "link_name (esi_lag_core ae) = None"
  by (simp_all add: esi_lag_core_def)

text \<open>
  C10. Core-to-core records never make the synthesis fail, whatever ports they name: if
  the aggregation processing of the other records succeeds, so does \<open>_build_topology\<close> on
  all records, with the same access configuration. In the returned core configuration
  every endpoint of a core link holds an entry whose usage is \<open>evpn_uplink\<close> or
  \<open>evpn_downlink\<close>, with the name of one of the links and none of the keys of an ESI-LAG
  entry, also where the aggregation processing had put an ESI-LAG entry on that port;
  every other port holds what the aggregation processing gave it.
\<close>

theorem core_link_replaces_esi_lag:
  assumes "2 \<le> length (sorted_core_devices roles)"
    and "aggregation_phase (filter (\<lambda>e. \<not> core_to_core roles e) entries) roles = Inr (agg, apc)"
  shows "\<exists>core_links cpc. build_topology entries roles = Inr (core_links, cpc, apc)
    \<and> (\<forall>d p. (d, p) \<in> \<Union> (link_ends ` set core_links) \<longrightarrow>
          (\<exists>cfg n. port_lookup cpc d p = Some cfg
             \<and> (usage cfg = ''evpn_uplink'' \<or> usage cfg = ''evpn_downlink'')
             \<and> usage cfg \<noteq> ''EVPN-ESI-LAG''
             \<and> aggregated cfg = None \<and> esilag cfg = None \<and> port_ae_idx cfg = None
             \<and> 1 \<le> n \<and> n \<le> length core_links
             \<and> link_name cfg = Some (''link'' @ str_nat n)))
    \<and> (\<forall>d p. (d, p) \<notin> \<Union> (link_ends ` set core_links) \<longrightarrow>
          port_lookup cpc d p = port_lookup agg d p)"
proof -
  let ?cd = "sorted_core_devices roles"
  let ?links = "core_links_loop ?cd entries {} []"
  let ?ls = "sort_key link_key ?links"
  have agg: "aggregation_phase entries roles = Inr (agg, apc)"
    using assms(2) by (simp only: aggregation_phase_without_core_links)
  have keys: "dict_keys agg = set ?cd"
    by (rule aggregation_phase_keys [OF agg])
  have "\<forall>l \<in> set ?links. core1 l \<in> set ?cd \<and> core2 l \<in> set ?cd"
    by (rule core_links_loop_cores) simp
  then have "\<forall>l \<in> set ?ls. core1 l \<in> dict_keys agg \<and> core2 l \<in> dict_keys agg"
    by (simp add: keys)
  then obtain cpc where cpc: "links_loop (Suc 0) ?ls agg = Inr cpc"
    using links_loop_ok [of ?ls agg "Suc 0"] by blast
  have run: "build_topology entries roles = Inr (?links, cpc, apc)"
    using assms(1) by (simp add: build_topology_def Let_def agg cpc del: links_loop.simps)
  have w: "\<forall>d p. (d, p) \<in> \<Union> (link_ends ` set ?links) \<longrightarrow>
          (\<exists>cfg n. port_lookup cpc d p = Some cfg
             \<and> (usage cfg = ''evpn_uplink'' \<or> usage cfg = ''evpn_downlink'')
             \<and> usage cfg \<noteq> ''EVPN-ESI-LAG''
             \<and> aggregated cfg = None \<and> esilag cfg = None \<and> port_ae_idx cfg = None
             \<and> 1 \<le> n \<and> n \<le> length ?links
             \<and> link_name cfg = Some (''link'' @ str_nat n))"
  proof (intro allI impI)
    fix d p
    assume "(d, p) \<in> \<Union> (link_ends ` set ?links)"
    then have "(d, p) \<in> \<Union> (link_ends ` set ?ls)" by simp
    from links_loop_written [OF cpc this] obtain u n where
      v: "port_lookup cpc d p = Some (link_cfg u n)"
      and u: "u = ''evpn_uplink'' \<or> u = ''evpn_downlink''"
      and n: "Suc 0 \<le> n" "n < Suc 0 + length ?ls"
      by blast
    have ne: "u \<noteq> ''EVPN-ESI-LAG''" using u by auto
    have nb: "1 \<le> n \<and> n \<le> length ?links" using n by simp
    show "\<exists>cfg n. port_lookup cpc d p = Some cfg
             \<and> (usage cfg = ''evpn_uplink'' \<or> usage cfg = ''evpn_downlink'')
             \<and> usage cfg \<noteq> ''EVPN-ESI-LAG''
             \<and> aggregated cfg = None \<and> esilag cfg = None \<and> port_ae_idx cfg = None
             \<and> 1 \<le> n \<and> n \<le> length ?links
             \<and> link_name cfg = Some (''link'' @ str_nat n)"
      using v u ne nb
      by (intro exI [of _ "link_cfg u n"] exI [of _ n]) (simp only: link_cfg_fields simp_thms)
  qed
  have u: "\<forall>d p. (d, p) \<notin> \<Union> (link_ends ` set ?links) \<longrightarrow>
          port_lookup cpc d p = port_lookup agg d p"
  proof (intro allI impI)
    fix d p
    assume "(d, p) \<notin> \<Union> (link_ends ` set ?links)"
    then have "(d, p) \<notin> \<Union> (link_ends ` set ?ls)" by simp
    then show "port_lookup cpc d p = port_lookup agg d p"
      by (rule links_loop_untouched [OF cpc])
  qed
  from run w u show ?thesis by blast
qed

theorem core_link_replaces_esi_lag_witness:
  "aggregation_phase
     [\<lparr>src_device = ''A'', src_int = ''ge-0/0/5'', dst_device = ''X'', dst_int = ''ge-0/0/0'', ae_idx = Some 5\<rparr>,
      \<lparr>src_device = ''X'', src_int = ''ge-0/0/1'', dst_device = ''B'', dst_int = ''ge-0/0/6'', ae_idx = Some 5\<rparr>]
     [(''A'', ''collapsed-core''), (''B'', ''collapsed-core''), (''X'', ''access'')]
   = Inr ([(''A'', [(''ge-0/0/5'', \<lparr>usage = ''EVPN-ESI-LAG'', aggregated = Some True,
                       esilag = Some True, port_ae_idx = Some 5, link_name = None\<rparr>)]),
           (''B'', [(''ge-0/0/6'', \<lparr>usage = ''EVPN-ESI-LAG'', aggregated = Some True,
                       esilag = Some True, port_ae_idx = Some 5, link_name = None\<rparr>)])],
          [(Some ''X'', [(''ge-0/0/0,ge-0/0/1'', esi_lag_access 5)])])
   \<and> build_topology
     [\<lparr>src_device = ''A'', src_int = ''ge-0/0/5'', dst_device = ''B'', dst_int = ''ge-0/0/5'', ae_idx = None\<rparr>,
      \<lparr>src_device = ''A'', src_int = ''ge-0/0/5'', dst_device = ''X'', dst_int = ''ge-0/0/0'', ae_idx = Some 5\<rparr>,
      \<lparr>src_device = ''X'', src_int = ''ge-0/0/1'', dst_device = ''B'', dst_int = ''ge-0/0/6'', ae_idx = Some 5\<rparr>]
     [(''A'', ''collapsed-core''), (''B'', ''collapsed-core''), (''X'', ''access'')]
   = Inr ([\<lparr>core1 = ''A'', port1 = ''ge-0/0/5'', core2 = ''B'', port2 = ''ge-0/0/5''\<rparr>],
          [(''A'', [(''ge-0/0/5'', \<lparr>usage = ''evpn_downlink'', aggregated = None, esilag = None,
                       port_ae_idx = None, link_name = Some ''link1''\<rparr>)]),
           (''B'', [(''ge-0/0/6'', \<lparr>usage = ''EVPN-ESI-LAG'', aggregated = Some True,
                       esilag = Some True, port_ae_idx = Some 5, link_name = None\<rparr>),
                    (''ge-0/0/5'', \<lparr>usage = ''evpn_uplink'', aggregated = None, esilag = None,
                       port_ae_idx = None, link_name = Some ''link1''\<rparr>)])],
          [(Some ''X'', [(''ge-0/0/0,ge-0/0/1'', esi_lag_access 5)])])
   \<and> (\<exists>cfg. port_lookup
          [(''A'', [(''ge-0/0/5'', \<lparr>usage = ''evpn_downlink'', aggregated = None, esilag = None,
                       port_ae_idx = None, link_name = Some ''link1''\<rparr>)]),
           (''B'', [(''ge-0/0/6'', \<lparr>usage = ''EVPN-ESI-LAG'', aggregated = Some True,
                       esilag = Some True, port_ae_idx = Some 5, link_name = None\<rparr>),
                    (''ge-0/0/5'', \<lparr>usage = ''evpn_uplink'', aggregated = None, esilag = None,
                       port_ae_idx = None, link_name = Some ''link1''\<rparr>)])]
          ''A'' ''ge-0/0/5'' = Some cfg
        \<and> (usage cfg = ''evpn_uplink'' \<or> usage cfg = ''evpn_downlink'')
        \<and> usage cfg \<noteq> ''EVPN-ESI-LAG'' \<and> esilag cfg = None)"
proof -
  let ?e1 = "\<lparr>src_device = ''A'', src_int = ''ge-0/0/5'', dst_device = ''B'', dst_int = ''ge-0/0/5'',
    ae_idx = None\<rparr>"
  let ?e2 = "\<lparr>src_device = ''A'', src_int = ''ge-0/0/5'', dst_device = ''X'', dst_int = ''ge-0/0/0'',
    ae_idx = Some 5\<rparr>"
  let ?e3 = "\<lparr>src_device = ''X'', src_int = ''ge-0/0/1'', dst_device = ''B'', dst_int = ''ge-0/0/6'',
    ae_idx = Some 5\<rparr>"
  let ?roles = "[(''A'', ''collapsed-core''), (''B'', ''collapsed-core''), (''X'', ''access'')]"
  let ?l = "\<lparr>core1 = ''A'', port1 = ''ge-0/0/5'', core2 = ''B'', port2 = ''ge-0/0/5''\<rparr>"
  let ?esi = "\<lparr>usage = ''EVPN-ESI-LAG'', aggregated = Some True,
    esilag = Some True, port_ae_idx = Some 5, link_name = None\<rparr>"
  let ?down = "\<lparr>usage = ''evpn_downlink'', aggregated = None, esilag = None,
    port_ae_idx = None, link_name = Some ''link1''\<rparr>"
  let ?up = "\<lparr>usage = ''evpn_uplink'', aggregated = None, esilag = None,
    port_ae_idx = None, link_name = Some ''link1''\<rparr>"
  let ?agg = "[(''A'', [(''ge-0/0/5'', ?esi)]), (''B'', [(''ge-0/0/6'', ?esi)])]"
  let ?apc = "[(Some ''X'', [(''ge-0/0/0,ge-0/0/1'', esi_lag_access 5)])]"
  let ?cpc = "[(''A'', [(''ge-0/0/5'', ?down)]),
           (''B'', [(''ge-0/0/6'', ?esi), (''ge-0/0/5'', ?up)])]"
  have n1: "str_nat (Suc 0) = ''1''"
    by simp
  have cd: "sorted_core_devices ?roles = [''A'', ''B'']"
    by (simp add: sorted_core_devices_def)
  have two: "2 \<le> length (sorted_core_devices ?roles)"
    by (simp add: cd)
  have pk: "port_key [''ge-0/0/0'', ''ge-0/0/1''] = ''ge-0/0/0,ge-0/0/1''"
    by (simp add: port_key_def)
  have grp: "aggregation_groups [?e2, ?e3] ?roles = [(5, [?e2, ?e3])]"
    by (simp add: aggregation_groups_def is_core_def dict_set_def)
  have agg: "aggregation_phase [?e2, ?e3] ?roles = Inr (?agg, ?apc)"
    by (simp add: aggregation_phase_def grp cd initial_port_config_def dict_set_def
        core_end_def access_end_def is_core_def pk esi_lag_core_def)
  have flt: "filter (\<lambda>e. \<not> core_to_core ?roles e) [?e1, ?e2, ?e3] = [?e2, ?e3]"
    by (simp add: core_to_core_def is_core_def)
  have agg': "aggregation_phase (filter (\<lambda>e. \<not> core_to_core ?roles e) [?e1, ?e2, ?e3]) ?roles
      = Inr (?agg, ?apc)"
    by (simp only: flt agg)
  have grp3: "aggregation_groups [?e1, ?e2, ?e3] ?roles = [(5, [?e2, ?e3])]"
    by (simp add: aggregation_groups_def is_core_def dict_set_def)
  have agg3: "aggregation_phase [?e1, ?e2, ?e3] ?roles = Inr (?agg, ?apc)"
    by (simp add: aggregation_phase_def grp3 cd initial_port_config_def dict_set_def
        core_end_def access_end_def is_core_def pk esi_lag_core_def)
  have cl: "core_links_loop [''A'', ''B''] [?e1, ?e2, ?e3] {} [] = [?l]"
    by (simp add: Let_def)
  have ll: "links_loop (Suc 0) [?l] ?agg = Inr ?cpc"
    by (simp add: set_port_def dict_set_def link_cfg_def n1 del: str_nat.simps)
  have run: "build_topology [?e1, ?e2, ?e3] ?roles = Inr ([?l], ?cpc, ?apc)"
    unfolding build_topology_def Let_def cd cl agg3
    by (simp add: ll del: links_loop.simps str_nat.simps)
  from core_link_replaces_esi_lag [OF two agg'] obtain core_links cpc where
    r: "build_topology [?e1, ?e2, ?e3] ?roles = Inr (core_links, cpc, ?apc)"
    and w: "\<forall>d p. (d, p) \<in> \<Union> (link_ends ` set core_links) \<longrightarrow>
          (\<exists>cfg n. port_lookup cpc d p = Some cfg
             \<and> (usage cfg = ''evpn_uplink'' \<or> usage cfg = ''evpn_downlink'')
             \<and> usage cfg \<noteq> ''EVPN-ESI-LAG''
             \<and> aggregated cfg = None \<and> esilag cfg = None \<and> port_ae_idx cfg = None
             \<and> 1 \<le> n \<and> n \<le> length core_links
             \<and> link_name cfg = Some (''link'' @ str_nat n))"
    by blast
  from r run have eq: "core_links = [?l]" "cpc = ?cpc" by simp_all
  have "(''A'', ''ge-0/0/5'') \<in> \<Union> (link_ends ` set core_links)"
    by (simp add: eq link_ends_def)
  with w have "\<exists>cfg n. port_lookup cpc ''A'' ''ge-0/0/5'' = Some cfg
             \<and> (usage cfg = ''evpn_uplink'' \<or> usage cfg = ''evpn_downlink'')
             \<and> usage cfg \<noteq> ''EVPN-ESI-LAG''
             \<and> aggregated cfg = None \<and> esilag cfg = None \<and> port_ae_idx cfg = None
             \<and> 1 \<le> n \<and> n \<le> length core_links
             \<and> link_name cfg = Some (''link'' @ str_nat n)"
    by blast
  then have "\<exists>cfg. port_lookup cpc ''A'' ''ge-0/0/5'' = Some cfg
        \<and> (usage cfg = ''evpn_uplink'' \<or> usage cfg = ''evpn_downlink'')
        \<and> usage cfg \<noteq> ''EVPN-ESI-LAG'' \<and> esilag cfg = None"
    by blast
  then have "\<exists>cfg. port_lookup ?cpc ''A'' ''ge-0/0/5'' = Some cfg
        \<and> (usage cfg = ''evpn_uplink'' \<or> usage cfg = ''evpn_downlink'')
        \<and> usage cfg \<noteq> ''EVPN-ESI-LAG'' \<and> esilag cfg = None"
    by (simp only: eq)
  with agg run show ?thesis by (intro conjI)
qed

section \<open>Access bundles\<close>

lemma find_snoc:
  "find P (xs @ [x]) = (case find P xs of Some y \<Rightarrow> Some y | None \<Rightarrow> if P x then Some x else None)"
  by (induction xs) auto

lemma map_of_fold_dict_set:
  "map_of (fold (\<lambda>x a. dict_set a (kf x) (vf x)) xs a) k =
     (case find (\<lambda>x. kf x = k) (rev xs) of None \<Rightarrow> map_of a k | Some x \<Rightarrow> Some (vf x))"
proof (induction xs arbitrary: a)
  case Nil
  show ?case by simp
next
  case (Cons x xs)
  show ?case
    by (simp add: Cons.IH find_snoc map_of_dict_set split: option.splits)
qed

lemma distinct_fold_dict_set:
  "distinct (map fst a) \<Longrightarrow> distinct (map fst (fold (\<lambda>x a. dict_set a (kf x) (vf x)) xs a))"
  by (induction xs arbitrary: a) (simp_all add: distinct_dict_set)

lemma conns_loop_access:
  assumes "conns_loop roles ae conns cpc ad aps = Inr (cpc', ad', aps')"
  shows "ad' = (if conns = [] then ad else Some (fst (access_end roles (last conns))))
     \<and> aps' = aps @ map (\<lambda>c. snd (access_end roles c)) conns"
  using assms
proof (induction conns arbitrary: cpc ad aps)
  case Nil
  then show ?case by simp
next
  case (Cons c conns)
  from Cons.prems obtain ports where
    rest: "conns_loop roles ae conns
           (dict_set cpc (fst (core_end roles c))
              (dict_set ports (snd (core_end roles c)) (esi_lag_core ae)))
           (Some (fst (access_end roles c))) (aps @ [snd (access_end roles c)]) = Inr (cpc', ad', aps')"
    by (rule conns_loop_ConsE)
  from Cons.IH [OF rest] show ?case by simp
qed

lemma groups_loop_access:
  assumes "groups_loop roles groups cpc apc = Inr (cpc', apc')"
  shows "apc' = fold (\<lambda>g a. dict_set a (Some (group_access_dev roles (snd g)))
                     [(group_port_key roles (snd g), esi_lag_access (fst g))]) groups apc"
  using assms
proof (induction groups arbitrary: cpc apc)
  case Nil
  then show ?case by simp
next
  case (Cons g groups)
  obtain ae conns where g: "g = (ae, conns)" by (cases g)
  from Cons.prems obtain cpc1 ad aps where len: "length conns = 2"
    and c: "conns_loop roles ae conns cpc None [] = Inr (cpc1, ad, aps)"
    and rest: "groups_loop roles groups cpc1
           (dict_set apc ad [(port_key aps, esi_lag_access ae)]) = Inr (cpc', apc')"
    unfolding g by (rule groups_loop_ConsE)
  from len have ne: "conns \<noteq> []" by auto
  from conns_loop_access [OF c] ne have ad: "ad = Some (group_access_dev roles conns)"
    and aps: "port_key aps = group_port_key roles conns"
    by (simp_all add: group_access_dev_def group_port_key_def)
  from Cons.IH [OF rest] show ?case
    by (simp add: g ad aps)
qed

text \<open>
  C9. In the access configuration returned by \<open>_build_topology\<close> every device has one
  dictionary, with exactly one bundle entry: that of the last group, in processing order,
  whose access side is this device. A device that is the access side of no group has no
  entry, and the bundles of earlier groups on the same device are not in the result.
\<close>

theorem access_bundle_last_group:
  assumes "build_topology entries roles = Inr (core_links, cpc, apc)"
  shows "distinct (map fst apc)
    \<and> (\<forall>kv \<in> set apc. length (snd kv) = 1)
    \<and> map_of apc None = None
    \<and> map_of apc (Some dev) =
        (case find (\<lambda>g. group_access_dev roles (snd g) = dev)
                (rev (aggregation_groups entries roles)) of
           None \<Rightarrow> None
         | Some g \<Rightarrow> Some [(group_port_key roles (snd g), esi_lag_access (fst g))])"
proof -
  let ?kf = "\<lambda>g. Some (group_access_dev roles (snd g))"
  let ?vf = "\<lambda>g. [(group_port_key roles (snd g), esi_lag_access (fst g))]"
  let ?groups = "aggregation_groups entries roles"
  from assms obtain agg where "aggregation_phase entries roles = Inr (agg, apc)"
    by (rule build_topology_InrE)
  then have apc: "apc = fold (\<lambda>g a. dict_set a (?kf g) (?vf g)) ?groups []"
    unfolding aggregation_phase_def by (rule groups_loop_access)
  have m: "map_of apc k =
      (case find (\<lambda>g. ?kf g = k) (rev ?groups) of None \<Rightarrow> None | Some g \<Rightarrow> Some (?vf g))" for k
    unfolding apc using map_of_fold_dict_set [of ?kf ?vf ?groups "[]" k]
    by (simp split: option.splits)
  have d: "distinct (map fst apc)"
    unfolding apc by (rule distinct_fold_dict_set) simp
  have one: "\<forall>kv \<in> set apc. length (snd kv) = 1"
  proof
    fix kv
    assume "kv \<in> set apc"
    then have "map_of apc (fst kv) = Some (snd kv)"
      using d by simp
    then have v: "(case find (\<lambda>g. ?kf g = fst kv) (rev ?groups) of
        None \<Rightarrow> None | Some g \<Rightarrow> Some (?vf g)) = Some (snd kv)"
      by (simp only: m)
    show "length (snd kv) = 1"
    proof (cases "find (\<lambda>g. ?kf g = fst kv) (rev ?groups)")
      case None
      with v show ?thesis by simp
    next
      case (Some g)
      with v have "?vf g = snd kv" by simp
      then have "length (snd kv) = length (?vf g)" by (simp only:)
      then show ?thesis by simp
    qed
  qed
  have "find (\<lambda>g. ?kf g = None) (rev ?groups) = None"
    by (simp add: find_None_iff)
  then have none: "map_of apc None = None"
    by (simp only: m option.case)
  have some: "map_of apc (Some dev) =
        (case find (\<lambda>g. group_access_dev roles (snd g) = dev) (rev ?groups) of
           None \<Rightarrow> None
         | Some g \<Rightarrow> Some (?vf g))"
    unfolding m by simp
  from d one none some show ?thesis by (intro conjI)
qed

theorem access_bundle_last_group_witness:
  "build_topology
     [\<lparr>src_device = ''A'', src_int = ''ge-0/0/5'', dst_device = ''X'', dst_int = ''ge-0/0/0'', ae_idx = Some 5\<rparr>,
      \<lparr>src_device = ''B'', src_int = ''ge-0/0/5'', dst_device = ''X'', dst_int = ''ge-0/0/1'', ae_idx = Some 5\<rparr>,
      \<lparr>src_device = ''A'', src_int = ''ge-0/0/6'', dst_device = ''X'', dst_int = ''ge-0/0/2'', ae_idx = Some 6\<rparr>,
      \<lparr>src_device = ''B'', src_int = ''ge-0/0/6'', dst_device = ''X'', dst_int = ''ge-0/0/3'', ae_idx = Some 6\<rparr>]
     [(''A'', ''collapsed-core''), (''B'', ''collapsed-core''), (''X'', ''access'')]
   = Inr ([],
          [(''A'', [(''ge-0/0/5'', esi_lag_core 5), (''ge-0/0/6'', esi_lag_core 6)]),
           (''B'', [(''ge-0/0/5'', esi_lag_core 5), (''ge-0/0/6'', esi_lag_core 6)])],
          [(Some ''X'', [(''ge-0/0/2,ge-0/0/3'', esi_lag_access 6)])])
   \<and> map_of [(Some ''X'', [(''ge-0/0/2,ge-0/0/3'', esi_lag_access 6)])] (Some ''X'')
       = Some [(group_port_key [(''A'', ''collapsed-core''), (''B'', ''collapsed-core''), (''X'', ''access'')]
                  [\<lparr>src_device = ''A'', src_int = ''ge-0/0/6'', dst_device = ''X'', dst_int = ''ge-0/0/2'', ae_idx = Some 6\<rparr>,
                   \<lparr>src_device = ''B'', src_int = ''ge-0/0/6'', dst_device = ''X'', dst_int = ''ge-0/0/3'', ae_idx = Some 6\<rparr>],
                esi_lag_access 6)]"
proof -
  let ?e1 = "\<lparr>src_device = ''A'', src_int = ''ge-0/0/5'', dst_device = ''X'', dst_int = ''ge-0/0/0'',
    ae_idx = Some 5\<rparr>"
  let ?e2 = "\<lparr>src_device = ''B'', src_int = ''ge-0/0/5'', dst_device = ''X'', dst_int = ''ge-0/0/1'',
    ae_idx = Some 5\<rparr>"
  let ?e3 = "\<lparr>src_device = ''A'', src_int = ''ge-0/0/6'', dst_device = ''X'', dst_int = ''ge-0/0/2'',
    ae_idx = Some 6\<rparr>"
  let ?e4 = "\<lparr>src_device = ''B'', src_int = ''ge-0/0/6'', dst_device = ''X'', dst_int = ''ge-0/0/3'',
    ae_idx = Some 6\<rparr>"
  let ?es = "[?e1, ?e2, ?e3, ?e4]"
  let ?roles = "[(''A'', ''collapsed-core''), (''B'', ''collapsed-core''), (''X'', ''access'')]"
  let ?cpc = "[(''A'', [(''ge-0/0/5'', esi_lag_core 5), (''ge-0/0/6'', esi_lag_core 6)]),
           (''B'', [(''ge-0/0/5'', esi_lag_core 5), (''ge-0/0/6'', esi_lag_core 6)])]"
  let ?apc = "[(Some ''X'', [(''ge-0/0/2,ge-0/0/3'', esi_lag_access 6)])]"
  have cd: "sorted_core_devices ?roles = [''A'', ''B'']"
    by (simp add: sorted_core_devices_def)
  have pk: "port_key [''ge-0/0/0'', ''ge-0/0/1''] = ''ge-0/0/0,ge-0/0/1''"
    "port_key [''ge-0/0/2'', ''ge-0/0/3''] = ''ge-0/0/2,ge-0/0/3''"
    by (simp_all add: port_key_def)
  have grp: "aggregation_groups ?es ?roles = [(5, [?e1, ?e2]), (6, [?e3, ?e4])]"
    by (simp add: aggregation_groups_def is_core_def dict_set_def)
  have agg: "aggregation_phase ?es ?roles = Inr (?cpc, ?apc)"
    by (simp add: aggregation_phase_def grp cd initial_port_config_def dict_set_def
        core_end_def access_end_def is_core_def pk)
  have cl: "core_links_loop [''A'', ''B''] ?es {} [] = []"
    by simp
  have run: "build_topology ?es ?roles = Inr ([], ?cpc, ?apc)"
    unfolding build_topology_def Let_def cd cl agg by simp
  have dev: "group_access_dev ?roles [?e3, ?e4] = ''X''" "group_access_dev ?roles [?e1, ?e2] = ''X''"
    by (simp_all add: group_access_dev_def access_end_def is_core_def)
  have fnd: "find (\<lambda>g. group_access_dev ?roles (snd g) = ''X'') (rev (aggregation_groups ?es ?roles))
      = Some (6, [?e3, ?e4])"
    by (simp add: grp dev)
  have "map_of ?apc (Some ''X'') =
        (case find (\<lambda>g. group_access_dev ?roles (snd g) = ''X'')
                (rev (aggregation_groups ?es ?roles)) of
           None \<Rightarrow> None
         | Some g \<Rightarrow> Some [(group_port_key ?roles (snd g), esi_lag_access (fst g))])"
    using access_bundle_last_group [OF run, of "''X''"] by (elim conjE)
  then have "map_of ?apc (Some ''X'')
      = Some [(group_port_key ?roles [?e3, ?e4], esi_lag_access 6)]"
    by (simp only: fnd option.case fst_conv snd_conv)
  with run show ?thesis by (intro conjI)
qed


section \<open>Aggregation groups\<close>







lemma legs_are_legs: "c \<in> set (legs roles entries ae) \<Longrightarrow> is_leg roles c \<and> c \<in> set entries"
  by (simp add: legs_def)


section \<open>Errors of the loops\<close>





section \<open>When the aggregation loops succeed\<close>





section \<open>The legs of all groups\<close>








section \<open>Group sizes\<close>






end
